theory Spec2Isabelle
  imports Main
begin

section \<open>Go values\<close>

text \<open>
  A Go \<^verbatim>\<open>string\<close> is a sequence of bytes, which is what \<^typ>\<open>string\<close> is here. A
  \<^verbatim>\<open>rune\<close> (an \<^verbatim>\<open>int32\<close>) is a code point. \<^verbatim>\<open>int\<close> is modelled by \<^typ>\<open>int\<close>: no
  value of the program comes near 64 bits. \<^verbatim>\<open>int8\<close> is modelled by \<^typ>\<open>int\<close> with the
  wrap-around of every arithmetic operation and conversion written out (\<open>i8\<close>).
\<close>

type_synonym rune = int

datatype error =
    NilDereference
  | IndexOutOfRange
  | SliceBoundsOutOfRange
  | MakeSliceLenOutOfRange

definition i8 :: "int \<Rightarrow> int" where
  "i8 x = (x + 128) mod 256 - 128"

subsection \<open>\<^verbatim>\<open>utf8.DecodeRuneInString\<close>\<close>

text \<open>
  The decoder belongs to Go's standard library, not to the repository. It is written out
  after the library's documented behaviour: the first rune of the string and its width in
  bytes; \<open>(RuneError, 0)\<close> on the empty string and \<open>(RuneError, 1)\<close> on an invalid
  encoding (a bad lead byte, a missing or out-of-range continuation byte, an overlong
  form, a surrogate, a value above U+10FFFF).
\<close>

definition RuneError :: rune where
  "RuneError = 0xFFFD"

definition byte :: "char \<Rightarrow> int" where
  "byte c = of_char c"

definition accept_lo :: "int \<Rightarrow> int" where
  "accept_lo b0 = (if b0 = 0xE0 then 0xA0 else if b0 = 0xF0 then 0x90 else 0x80)"

definition accept_hi :: "int \<Rightarrow> int" where
  "accept_hi b0 = (if b0 = 0xED then 0x9F else if b0 = 0xF4 then 0x8F else 0xBF)"

definition DecodeRuneInString :: "string \<Rightarrow> rune \<times> nat" where
  "DecodeRuneInString s =
     (case s of
        [] \<Rightarrow> (RuneError, 0)
      | c0 # _ \<Rightarrow>
          let b0 = byte c0 in
          if b0 < 0x80 then (b0, 1)
          else if b0 < 0xC2 \<or> 0xF4 < b0 then (RuneError, 1)
          else
            let sz = (if b0 < 0xE0 then 2 else if b0 < 0xF0 then 3 else (4::nat)) in
            if length s < sz then (RuneError, 1)
            else
              let b1 = byte (s ! 1) in
              if b1 < accept_lo b0 \<or> accept_hi b0 < b1 then (RuneError, 1)
              else if sz \<le> 2 then ((b0 mod 32) * 64 + b1 mod 64, 2)
              else
                let b2 = byte (s ! 2) in
                if b2 < 0x80 \<or> 0xBF < b2 then (RuneError, 1)
                else if sz \<le> 3 then ((b0 mod 16) * 4096 + (b1 mod 64) * 64 + b2 mod 64, 3)
                else
                  let b3 = byte (s ! 3) in
                  if b3 < 0x80 \<or> 0xBF < b3 then (RuneError, 1)
                  else ((b0 mod 8) * 262144 + (b1 mod 64) * 4096 + (b2 mod 64) * 64
                          + b3 mod 64, 4))"

lemma DecodeRuneInString_width: "s \<noteq> [] \<Longrightarrow> 0 < snd (DecodeRuneInString s)"
  by (cases s) (simp_all add: DecodeRuneInString_def Let_def)

subsection \<open>\<^verbatim>\<open>extractRunes\<close>\<close>

text \<open>
  \<^verbatim>\<open>for w := 0; i < len(s); i += w { r, w = utf8.DecodeRuneInString(s[i:]); rs = append(rs, r) }\<close>.
  \<^verbatim>\<open>Get\<close>, \<^verbatim>\<open>Set\<close> and \<^verbatim>\<open>Delete\<close> walk their key with the same loop header, one
  trie edge per decoded rune, so their models take the key's runes from this function.
\<close>

function extractRunes :: "string \<Rightarrow> rune list" where
  "extractRunes s =
     (if s = [] then []
      else fst (DecodeRuneInString s) # extractRunes (drop (snd (DecodeRuneInString s)) s))"
  by pat_completeness auto
termination
proof (relation "measure length")
  show "wf (measure length)" by simp
next
  fix s :: string
  assume "s \<noteq> []"
  then have "0 < snd (DecodeRuneInString s)" by (rule DecodeRuneInString_width)
  with \<open>s \<noteq> []\<close> show "(drop (snd (DecodeRuneInString s)) s, s) \<in> measure length"
    by (cases s) auto
qed

declare extractRunes.simps [simp del]

subsection \<open>\<^verbatim>\<open>utf8.ValidString\<close>\<close>

text \<open>
  The library's test for valid UTF-8, after its documented behaviour: the string consists
  of valid encodings only, that is, no step of the decoder over it meets an invalid
  encoding (for which the decoder returns \<open>(RuneError, 1)\<close>; the valid encoding of U+FFFD
  has width 3).
\<close>

function valid_utf8 :: "string \<Rightarrow> bool" where
  "valid_utf8 s =
     (if s = [] then True
      else if DecodeRuneInString s = (RuneError, 1) then False
      else valid_utf8 (drop (snd (DecodeRuneInString s)) s))"
  by pat_completeness auto
termination
proof (relation "measure length")
  show "wf (measure length)" by simp
next
  fix s :: string
  assume "s \<noteq> []"
  then have "0 < snd (DecodeRuneInString s)" by (rule DecodeRuneInString_width)
  with \<open>s \<noteq> []\<close> show "(drop (snd (DecodeRuneInString s)) s, s) \<in> measure length"
    by (cases s) auto
qed

declare valid_utf8.simps [simp del]

section \<open>The trie\<close>

text \<open>
  \<^verbatim>\<open>type KV struct { Key string; Value string }\<close> and
  \<^verbatim>\<open>type node struct { child map[rune]*node; data *KV }\<close>. Every node is owned by one
  parent, so the pointer graph is a tree and a node is the value of its subtree. The child
  map is an association list; the order of the list stands for the order in which
  \<^verbatim>\<open>range\<close> enumerates the map, which Go leaves open, so whatever is proved for every
  node holds for every enumeration order. A pointer to a node inside the trie is the list
  of runes leading to it from the root.
\<close>

datatype KV = KV (Key: string) (Value: string)

datatype node = Node (child: "(rune \<times> node) list") (data: "KV option")

datatype Trie = Trie (root: node)

text \<open>\<^verbatim>\<open>m[r] = z\<close> and \<^verbatim>\<open>delete(m, r)\<close> on a child map.\<close>

fun map_store :: "rune \<Rightarrow> node \<Rightarrow> (rune \<times> node) list \<Rightarrow> (rune \<times> node) list" where
  "map_store r z [] = [(r, z)]"
| "map_store r z ((k, x) # cs) = (if k = r then (r, z) # cs else (k, x) # map_store r z cs)"

definition map_delete :: "rune \<Rightarrow> (rune \<times> node) list \<Rightarrow> (rune \<times> node) list" where
  "map_delete r cs = filter (\<lambda>kx. fst kx \<noteq> r) cs"

definition New :: Trie where
  "New = Trie (Node [] None)"

text \<open>The descent \<^verbatim>\<open>n, ok = n.child[r]\<close> along a list of runes; \<open>None\<close> when an edge is missing.\<close>

fun walk :: "node \<Rightarrow> rune list \<Rightarrow> node option" where
  "walk n [] = Some n"
| "walk n (r # rs) = (case map_of (child n) r of None \<Rightarrow> None | Some x \<Rightarrow> walk x rs)"

definition Trie_Get :: "Trie \<Rightarrow> string \<Rightarrow> string \<times> bool" where
  "Trie_Get t key =
     (case walk (root t) (extractRunes key) of
        None \<Rightarrow> ('''', False)
      | Some n \<Rightarrow> (case data n of Some kv \<Rightarrow> (Value kv, True) | None \<Rightarrow> ('''', False)))"

text \<open>
  \<^verbatim>\<open>Set\<close> descends, creating the missing nodes, and installs the entry at the end of the
  path. The in-place update through the pointer \<open>n\<close> is the rebuilt path here.
\<close>

fun set_node :: "rune list \<Rightarrow> KV \<Rightarrow> node \<Rightarrow> node" where
  "set_node [] kv n = Node (child n) (Some kv)"
| "set_node (r # rs) kv n =
     (case map_of (child n) r of
        None \<Rightarrow> Node (map_store r (set_node rs kv (Node [] None)) (child n)) (data n)
      | Some x \<Rightarrow> Node (map_store r (set_node rs kv x) (child n)) (data n))"

definition Trie_Set :: "Trie \<Rightarrow> string \<Rightarrow> string \<Rightarrow> Trie" where
  "Trie_Set t key val = Trie (set_node (extractRunes key) (KV key val) (root t))"

text \<open>
  \<^verbatim>\<open>Delete\<close>. The loop carries the current node \<open>n\<close> (with the path \<open>pre\<close> that leads to
  it) and the cut point \<^verbatim>\<open>cnode, crune\<close>, \<open>None\<close> while \<^verbatim>\<open>cnode == nil\<close>; a missing
  edge ends the call with nothing changed. After the loop the entry of the node reached is
  cleared and, when that node has no children, \<^verbatim>\<open>delete(cnode.child, crune)\<close> runs, which
  dereferences \<^verbatim>\<open>cnode\<close>.
\<close>

fun delete_walk ::
  "node \<Rightarrow> rune list \<Rightarrow> (rune list \<times> rune) option \<Rightarrow> rune list
     \<Rightarrow> (node \<times> (rune list \<times> rune) option) option" where
  "delete_walk n pre c [] = Some (n, c)"
| "delete_walk n pre c (r # rs) =
     (let c' = (if 1 < length (child n) \<or> c = None then Some (pre, r) else c) in
      case map_of (child n) r of
        None \<Rightarrow> None
      | Some x \<Rightarrow> delete_walk x (pre @ [r]) c' rs)"

text \<open>A write through a pointer into the trie: \<open>f\<close> applied to the node at the end of a path.\<close>

fun modify_at :: "rune list \<Rightarrow> (node \<Rightarrow> node) \<Rightarrow> node \<Rightarrow> node" where
  "modify_at [] f n = f n"
| "modify_at (r # rs) f n =
     (case map_of (child n) r of
        None \<Rightarrow> n
      | Some x \<Rightarrow> Node (map_store r (modify_at rs f x) (child n)) (data n))"

definition clear_data :: "node \<Rightarrow> node" where
  "clear_data x = Node (child x) None"

definition drop_child :: "rune \<Rightarrow> node \<Rightarrow> node" where
  "drop_child r x = Node (map_delete r (child x)) (data x)"

definition Trie_Delete :: "Trie \<Rightarrow> string \<Rightarrow> error + Trie" where
  "Trie_Delete t key =
     (let rs = extractRunes key in
      case delete_walk (root t) [] None rs of
        None \<Rightarrow> Inr t
      | Some (n, c) \<Rightarrow>
          let t1 = modify_at rs clear_data (root t) in
          if length (child n) = 0 then
            (case c of
               None \<Rightarrow> Inl NilDereference
             | Some (cnode, crune) \<Rightarrow> Inr (Trie (modify_at cnode (drop_child crune) t1)))
          else Inr (Trie t1))"

section \<open>The Levenshtein NFA\<close>

text \<open>
  \<^verbatim>\<open>type state struct { offset int; arr []int8 }\<close> and
  \<^verbatim>\<open>type nfa struct { rs []rune; d int8; jump []int8 }\<close> (the fields are \<open>nfa_rs\<close>,
  \<open>nfa_d\<close> and \<open>nfa_jump\<close> here). \<^verbatim>\<open>make\<close> panics on a negative
  length, and the lengths \<^verbatim>\<open>2*d+1\<close> and \<^verbatim>\<open>d+1\<close> are computed in \<^verbatim>\<open>int8\<close>.
\<close>

datatype state = State (offset: int) (arr: "int list")

datatype nfa = Nfa (nfa_rs: "rune list") (nfa_d: int) (nfa_jump: "int list")

definition newState :: "int \<Rightarrow> int \<Rightarrow> error + state" where
  "newState dd off =
     (let len = i8 (i8 (2 * dd) + 1) in
      if len < 0 then Inl MakeSliceLenOutOfRange
      else Inr (State off (replicate (nat len) (i8 (dd + 1)))))"

definition newNfa :: "rune list \<Rightarrow> int \<Rightarrow> error + nfa" where
  "newNfa runes dd =
     (let len = 3 * dd + 2 in
      if len < 0 then Inl MakeSliceLenOutOfRange
      else Inr (Nfa runes dd (replicate (nat len) 0)))"

definition start :: "nfa \<Rightarrow> error + state" where
  "start n =
     (case newState (nfa_d n) (i8 (- 2 * nfa_d n)) of
        Inl e \<Rightarrow> Inl e
      | Inr initial \<Rightarrow>
          let k = i8 (2 * nfa_d n) in
          if 0 \<le> k \<and> k < int (length (arr initial))
          then Inr (State (offset initial) ((arr initial)[nat k := 0]))
          else Inl IndexOutOfRange)"

definition accepts :: "nfa \<Rightarrow> state \<Rightarrow> bool" where
  "accepts n s =
     list_ex (\<lambda>i. let dist = i8 (int (length (nfa_rs n)) - offset s - int i)
                  in dist \<le> nfa_d n \<and> dist \<ge> arr s ! i)
       [0..<length (arr s)]"

text \<open>
  The first loop of \<^verbatim>\<open>transition\<close> writes \<^verbatim>\<open>n.jump[i]\<close> for \<open>i\<close> from
  \<^verbatim>\<open>len(n.jump)-1\<close> down to \<open>0\<close>; \<open>k\<close> is the number of indices still to write, so the
  index written is \<open>k - 1\<close>. The counter \<^verbatim>\<open>next\<close> is an \<^verbatim>\<open>int8\<close>.
\<close>

fun fill_jump :: "rune list \<Rightarrow> rune \<Rightarrow> int \<Rightarrow> nat \<Rightarrow> int \<Rightarrow> int list \<Rightarrow> int list" where
  "fill_jump q r off 0 next jmp = jmp"
| "fill_jump q r off (Suc i) next jmp =
     (let x = off + int i;
          next' = (if x < int (length q) \<and> x \<ge> 0 \<and> q ! nat x = r then 0 else next)
      in fill_jump q r off i (i8 (next' + 1)) (jmp[i := next']))"

text \<open>
  The body of the second loop for the diagonal \<open>j\<close>: the value \<^verbatim>\<open>val\<close> after the three
  contributions. The reads \<^verbatim>\<open>s.arr[j]\<close> and \<^verbatim>\<open>n.jump[j+int(s.arr[j])]\<close> are unguarded.
\<close>

definition trans_cell :: "int \<Rightarrow> int list \<Rightarrow> int list \<Rightarrow> nat \<Rightarrow> error + int" where
  "trans_cell dd jmp sarr j =
     (if length sarr \<le> j then Inl IndexOutOfRange
      else
        let a = sarr ! j; k = int j + a in
        if k < 0 \<or> int (length jmp) \<le> k then Inl IndexOutOfRange
        else
          let val0 = i8 (dd + 1);
              cr = i8 (a + jmp ! nat k);
              val1 = (if cr < val0 then cr else val0);
              val2 = (if int j < int (length sarr) - 1 \<and> i8 (sarr ! (j + 1) + 1) < val1
                      then i8 (sarr ! (j + 1) + 1) else val1);
              val3 = (if int j < int (length sarr) - 2 \<and> i8 (sarr ! (j + 2) + 1) < val2
                      then i8 (sarr ! (j + 2) + 1) else val2)
          in Inr val3)"

fun trans_loop ::
  "int \<Rightarrow> int list \<Rightarrow> int list \<Rightarrow> nat list \<Rightarrow> int list \<Rightarrow> int \<Rightarrow> error + (int list \<times> int)" where
  "trans_loop dd jmp sarr [] nsarr mn = Inr (nsarr, mn)"
| "trans_loop dd jmp sarr (j # js) nsarr mn =
     (case trans_cell dd jmp sarr j of
        Inl e \<Rightarrow> Inl e
      | Inr val \<Rightarrow>
          trans_loop dd jmp sarr js
            (if val < i8 (dd + 1) then nsarr[j := val] else nsarr)
            (if val < mn then val else mn))"

text \<open>
  \<^verbatim>\<open>transition\<close>. The scratch array \<^verbatim>\<open>n.jump\<close> is shared by all calls; the first loop
  overwrites every cell of it before the second loop reads any, so the model starts each
  call from the array it is given and does not hand the written array back.
\<close>

definition transition :: "nfa \<Rightarrow> state \<Rightarrow> rune \<Rightarrow> error + (state \<times> int)" where
  "transition n s r =
     (case newState (nfa_d n) (offset s + 1) of
        Inl e \<Rightarrow> Inl e
      | Inr ns \<Rightarrow>
          let jmp = fill_jump (nfa_rs n) r (offset s) (length (nfa_jump n)) (i8 (nfa_d n + 1)) (nfa_jump n) in
          (case trans_loop (nfa_d n) jmp (arr s) [0..<length (arr ns)] (arr ns) (i8 (nfa_d n + 1)) of
             Inl e \<Rightarrow> Inl e
           | Inr (a, mn) \<Rightarrow> Inr (State (offset ns) a, mn)))"

section \<open>The guided traversal\<close>

datatype frame = Frame (fnode: node) (fstate: state)

text \<open>
  The two strategies. A Go stack (a slice, pushed and popped at its end) is a list whose
  head is the top: pushing \<open>c\<^sub>1, \<dots>, c\<^sub>k\<close> in this order puts \<open>rev [c\<^sub>1, \<dots>, c\<^sub>k]\<close> in
  front.
\<close>

definition doNotExpandSuffixes :: "node \<Rightarrow> int \<Rightarrow> KV list \<times> bool" where
  "doNotExpandSuffixes n limit = ((case data n of Some kv \<Rightarrow> [kv] | None \<Rightarrow> []), False)"

fun nsize :: "node \<Rightarrow> nat" where
  "nsize (Node cs dt) = Suc (sum_list (map (\<lambda>kx. nsize (snd kx)) cs))"

function expand_loop :: "node list \<Rightarrow> KV list \<Rightarrow> int \<Rightarrow> KV list" where
  "expand_loop [] results limit = results"
| "expand_loop (x # stack) results limit =
     (case data x of
        Some kv \<Rightarrow>
          if limit \<le> int (length (results @ [kv])) then results @ [kv]
          else expand_loop (rev (map snd (child x)) @ stack) (results @ [kv]) limit
      | None \<Rightarrow> expand_loop (rev (map snd (child x)) @ stack) results limit)"
  by pat_completeness auto
termination
proof (relation "measure (\<lambda>(stack, results, limit). sum_list (map nsize stack))")
  show "wf (measure (\<lambda>(stack, results, limit). sum_list (map nsize stack)))" by simp
next
  fix x :: node and stack :: "node list" and results :: "KV list" and limit :: int and kv
  have "sum_list (map nsize (rev (map snd (child x)))) < nsize x"
    by (cases x) (simp add: rev_map [symmetric] sum_list_rev comp_def del: rev_map)
  then show "((rev (map snd (child x)) @ stack, results @ [kv], limit), x # stack, results, limit)
      \<in> measure (\<lambda>(stack, results, limit). sum_list (map nsize stack))"
    and "((rev (map snd (child x)) @ stack, results, limit), x # stack, results, limit)
      \<in> measure (\<lambda>(stack, results, limit). sum_list (map nsize stack))"
    by simp_all
qed

definition expandSuffixes :: "node \<Rightarrow> int \<Rightarrow> KV list \<times> bool" where
  "expandSuffixes n limit = (expand_loop [n] [] limit, True)"

text \<open>
  The loop over the children of a popped frame:
  \<^verbatim>\<open>if ns, min := n.transition(f.s, r); min < d+1 { stacks[min] = append(stacks[min], ...) }\<close>.
\<close>

fun push_children ::
  "nfa \<Rightarrow> state \<Rightarrow> (rune \<times> node) list \<Rightarrow> frame list list \<Rightarrow> error + frame list list" where
  "push_children n s [] stacks = Inr stacks"
| "push_children n s ((r, c) # cs) stacks =
     (case transition n s r of
        Inl e \<Rightarrow> Inl e
      | Inr (ns, mn) \<Rightarrow>
          if mn < i8 (nfa_d n + 1) then
            (if 0 \<le> mn \<and> mn < int (length stacks)
             then push_children n s cs (stacks[nat mn := Frame c ns # stacks ! nat mn])
             else Inl IndexOutOfRange)
          else push_children n s cs stacks)"

definition frames_size :: "frame list list \<Rightarrow> nat" where
  "frames_size stacks = sum_list (map (\<lambda>st. sum_list (map (\<lambda>f. nsize (fnode f)) st)) stacks)"

lemma frames_size_update:
  "i < length stacks \<Longrightarrow>
   frames_size (stacks[i := st]) + sum_list (map (\<lambda>f. nsize (fnode f)) (stacks ! i))
     = frames_size stacks + sum_list (map (\<lambda>f. nsize (fnode f)) st)"
  unfolding frames_size_def
proof (induction stacks arbitrary: i)
  case Nil
  then show ?case by simp
next
  case (Cons a stacks)
  then show ?case by (cases i) auto
qed

lemma push_children_length:
  "push_children n s cs stacks = Inr stacks' \<Longrightarrow> length stacks' = length stacks"
proof (induction cs arbitrary: stacks)
  case Nil
  then show ?case by simp
next
  case (Cons a cs)
  obtain r c where a: "a = (r, c)" by (cases a)
  from Cons.prems show ?case
    unfolding a by (auto split: sum.splits prod.splits if_splits dest: Cons.IH)
qed

lemma push_children_size:
  "push_children n s cs stacks = Inr stacks' \<Longrightarrow>
   frames_size stacks' \<le> frames_size stacks + sum_list (map (\<lambda>kx. nsize (snd kx)) cs)"
proof (induction cs arbitrary: stacks)
  case Nil
  then show ?case by simp
next
  case (Cons a cs)
  obtain r c where a: "a = (r, c)" by (cases a)
  show ?case
  proof (cases "transition n s r")
    case (Inl e)
    with Cons.prems show ?thesis by (simp add: a)
  next
    case (Inr p)
    obtain ns mn where p: "p = (ns, mn)" by (cases p)
    show ?thesis
    proof (cases "mn < i8 (nfa_d n + 1)")
      case True
      with Cons.prems Inr p
      have rng: "0 \<le> mn" "mn < int (length stacks)"
        and rec: "push_children n s cs (stacks[nat mn := Frame c ns # stacks ! nat mn]) = Inr stacks'"
        by (auto simp: a split: if_splits)
      from rng have "nat mn < length stacks" by simp
      from frames_size_update [OF this, of "Frame c ns # stacks ! nat mn"]
      have "frames_size (stacks[nat mn := Frame c ns # stacks ! nat mn])
              = frames_size stacks + nsize c" by simp
      with Cons.IH [OF rec] show ?thesis by (simp add: a)
    next
      case False
      with Cons.prems Inr p have "push_children n s cs stacks = Inr stacks'"
        by (simp add: a)
      from Cons.IH [OF this] show ?thesis by (simp add: a)
    qed
  qed
qed

lemma nsize_children: "sum_list (map (\<lambda>kx. nsize (snd kx)) (child x)) < nsize x"
  by (cases x) simp

lemma pop_frames_size:
  assumes "i < length stacks" and "stacks ! i = f # rest"
  shows "frames_size (stacks[i := rest]) + nsize (fnode f) = frames_size stacks"
  using frames_size_update [OF assms(1), of rest] assms(2) by simp

lemma pop_push_frames_size:
  assumes "i < length stacks" and "stacks ! i = f # rest"
    and "push_children n (fstate f) (child (fnode f)) (stacks[i := rest]) = Inr stacks'"
  shows "frames_size stacks' < frames_size stacks" and "length stacks' = length stacks"
proof -
  from push_children_size [OF assms(3)] pop_frames_size [OF assms(1,2)]
    nsize_children [of "fnode f"]
  show "frames_size stacks' < frames_size stacks" by linarith
  from push_children_length [OF assms(3)] show "length stacks' = length stacks" by simp
qed

text \<open>
  The two nested loops of \<^verbatim>\<open>suggest\<close>: \<open>i\<close> is the index of the outer loop, which moves
  on when \<^verbatim>\<open>stacks[i]\<close> is empty. \<^verbatim>\<open>results[:limit]\<close> panics on a negative \<open>limit\<close>.
\<close>

function suggest_loop ::
  "(node \<Rightarrow> int \<Rightarrow> KV list \<times> bool) \<Rightarrow> nfa \<Rightarrow> int \<Rightarrow> nat \<Rightarrow> frame list list \<Rightarrow> KV list
     \<Rightarrow> error + KV list" where
  "suggest_loop process n limit i stacks results =
     (if length stacks \<le> i then Inr results
      else
        case stacks ! i of
          [] \<Rightarrow> suggest_loop process n limit (Suc i) stacks results
        | f # rest \<Rightarrow>
            if accepts n (fstate f) then
              (let (res, halt) = process (fnode f) (limit - int (length results)) in
               if limit \<le> int (length (results @ res)) then
                 (if limit < 0 then Inl SliceBoundsOutOfRange
                  else Inr (take (nat limit) (results @ res)))
               else if halt then suggest_loop process n limit i (stacks[i := rest]) (results @ res)
               else
                 (case push_children n (fstate f) (child (fnode f)) (stacks[i := rest]) of
                    Inl e \<Rightarrow> Inl e
                  | Inr stacks' \<Rightarrow> suggest_loop process n limit i stacks' (results @ res)))
            else
              (case push_children n (fstate f) (child (fnode f)) (stacks[i := rest]) of
                 Inl e \<Rightarrow> Inl e
               | Inr stacks' \<Rightarrow> suggest_loop process n limit i stacks' results))"
  by pat_completeness auto

termination
proof (relation "measures [\<lambda>(process, n, limit, i, stacks, results). length stacks - i,
                           \<lambda>(process, n, limit, i, stacks, results). frames_size stacks]",
       goal_cases)
  case 1
  show ?case by simp
next
  case (2 process n limit i stacks results)
  then show ?case by simp
next
  case (3 process n limit i stacks results f rest x res halt)
  then have "i < length stacks" by simp
  from pop_frames_size [OF this 3(2)] have "frames_size (stacks[i := rest]) < frames_size stacks"
    by (cases "fnode f") (simp del: nsize.simps add: nsize.simps)
  then show ?case by simp
next
  case (4 process n limit i stacks results f rest x res halt stacks')
  then have "i < length stacks" by simp
  with 4 pop_push_frames_size [of i stacks f rest n stacks'] show ?case by simp
next
  case (5 process n limit i stacks results f rest stacks')
  then have "i < length stacks" by simp
  with 5 pop_push_frames_size [of i stacks f rest n stacks'] show ?case by simp
qed

declare suggest_loop.simps [simp del]

definition suggest ::
  "(node \<Rightarrow> int \<Rightarrow> KV list \<times> bool) \<Rightarrow> node \<Rightarrow> rune list \<Rightarrow> int \<Rightarrow> int \<Rightarrow> error + KV list" where
  "suggest process root_node runes dd limit =
     (case newNfa runes dd of
        Inl e \<Rightarrow> Inl e
      | Inr n \<Rightarrow>
          (case start n of
             Inl e \<Rightarrow> Inl e
           | Inr st \<Rightarrow>
               let len = i8 (dd + 1) in
               if len < 0 then Inl MakeSliceLenOutOfRange
               else if len = 0 then Inl IndexOutOfRange
               else suggest_loop process n limit 0
                      ((replicate (nat len) [])[0 := [Frame root_node st]]) []))"

section \<open>The public searches\<close>

definition Suggest :: "Trie \<Rightarrow> string \<Rightarrow> int \<Rightarrow> int \<Rightarrow> error + KV list" where
  "Suggest t key dd n = suggest doNotExpandSuffixes (root t) (extractRunes key) dd n"

definition SuggestSuffixes :: "Trie \<Rightarrow> string \<Rightarrow> int \<Rightarrow> int \<Rightarrow> error + KV list" where
  "SuggestSuffixes t key dd n = suggest expandSuffixes (root t) (extractRunes key) dd n"

text \<open>
  The slice expressions \<^verbatim>\<open>runes[:p]\<close> and \<^verbatim>\<open>runes[p:]\<close>. A slice may be resliced up to
  its capacity, not only up to its length. \<^verbatim>\<open>extractRunes\<close> builds the slice with
  \<^verbatim>\<open>append\<close> from the literal \<^verbatim>\<open>[]rune{}\<close>, whose capacity is 0; how much room
  \<^verbatim>\<open>append\<close> allocates beyond the length when it grows the slice is up to the Go
  runtime. That room is the parameter \<open>spare\<close>: the cells of the backing array beyond the
  length, none when nothing was appended.
\<close>

definition runes_backing :: "rune list \<Rightarrow> rune list \<Rightarrow> rune list" where
  "runes_backing runes spare = (if runes = [] then [] else runes @ spare)"

definition slice_to :: "rune list \<Rightarrow> rune list \<Rightarrow> int \<Rightarrow> error + rune list" where
  "slice_to runes spare p =
     (if p < 0 \<or> int (length (runes_backing runes spare)) < p then Inl SliceBoundsOutOfRange
      else Inr (take (nat p) (runes_backing runes spare)))"

definition slice_from :: "rune list \<Rightarrow> int \<Rightarrow> error + rune list" where
  "slice_from runes p =
     (if p < 0 \<or> int (length runes) < p then Inl SliceBoundsOutOfRange
      else Inr (drop (nat p) runes))"

definition exact_prefix_search ::
  "(node \<Rightarrow> int \<Rightarrow> KV list \<times> bool) \<Rightarrow> rune list \<Rightarrow> Trie \<Rightarrow> string \<Rightarrow> int \<Rightarrow> int \<Rightarrow> int
     \<Rightarrow> error + KV list" where
  "exact_prefix_search process spare t key p dd n =
     (let runes = extractRunes key in
      case slice_to runes spare p of
        Inl e \<Rightarrow> Inl e
      | Inr pre \<Rightarrow>
          (case walk (root t) pre of
             None \<Rightarrow> Inr []
           | Some cur \<Rightarrow>
               (case slice_from runes p of
                  Inl e \<Rightarrow> Inl e
                | Inr rest \<Rightarrow> suggest process cur rest dd n)))"

definition SuggestAfterExactPrefix ::
  "rune list \<Rightarrow> Trie \<Rightarrow> string \<Rightarrow> int \<Rightarrow> int \<Rightarrow> int \<Rightarrow> error + KV list" where
  "SuggestAfterExactPrefix spare t key p dd n =
     exact_prefix_search doNotExpandSuffixes spare t key p dd n"

definition SuggestSuffixesAfterExactPrefix ::
  "rune list \<Rightarrow> Trie \<Rightarrow> string \<Rightarrow> int \<Rightarrow> int \<Rightarrow> int \<Rightarrow> error + KV list" where
  "SuggestSuffixesAfterExactPrefix spare t key p dd n =
     exact_prefix_search expandSuffixes spare t key p dd n"

section \<open>Sequences of public operations\<close>

text \<open>
  A client's call on a trie, and the trie it leaves behind. \<^verbatim>\<open>Set\<close> and \<^verbatim>\<open>Delete\<close> have
  pointer receivers and write to the nodes; \<^verbatim>\<open>Get\<close> and the four searches hand back the
  trie they were given (where the searches write is the subject of the last section, on a
  store). A panic ends the run.
\<close>

datatype op =
    OpGet string
  | OpSet string string
  | OpDelete string
  | OpSuggest string int int
  | OpSuggestSuffixes string int int
  | OpSuggestAfterExactPrefix "rune list" string int int int
  | OpSuggestSuffixesAfterExactPrefix "rune list" string int int int

datatype outcome = OutGet "string \<times> bool" | OutUnit | OutKVs "KV list"

definition found :: "Trie \<Rightarrow> error + KV list \<Rightarrow> error + Trie \<times> outcome" where
  "found t r = (case r of Inl e \<Rightarrow> Inl e | Inr kvs \<Rightarrow> Inr (t, OutKVs kvs))"

fun exec :: "op \<Rightarrow> Trie \<Rightarrow> error + Trie \<times> outcome" where
  "exec (OpGet key) t = Inr (t, OutGet (Trie_Get t key))"
| "exec (OpSet key val) t = Inr (Trie_Set t key val, OutUnit)"
| "exec (OpDelete key) t =
     (case Trie_Delete t key of Inl e \<Rightarrow> Inl e | Inr t' \<Rightarrow> Inr (t', OutUnit))"
| "exec (OpSuggest key dd n) t = found t (Suggest t key dd n)"
| "exec (OpSuggestSuffixes key dd n) t = found t (SuggestSuffixes t key dd n)"
| "exec (OpSuggestAfterExactPrefix spare key p dd n) t =
     found t (SuggestAfterExactPrefix spare t key p dd n)"
| "exec (OpSuggestSuffixesAfterExactPrefix spare key p dd n) t =
     found t (SuggestSuffixesAfterExactPrefix spare t key p dd n)"

fun run :: "op list \<Rightarrow> Trie \<Rightarrow> error + Trie" where
  "run [] t = Inr t"
| "run (c # cs) t = (case exec c t of Inl e \<Rightarrow> Inl e | Inr (t', out) \<Rightarrow> run cs t')"



fun sets_empty_key :: "op \<Rightarrow> bool" where
  "sets_empty_key (OpSet key val) = (key = [])"
| "sets_empty_key c = False"

section \<open>The reference edit distance\<close>

text \<open>
  Levenshtein distance by its recurrence: the least number of insertions, deletions and
  substitutions of single scalars that turn one sequence into the other. The distance
  between two strings is the distance between their decoded scalars.
\<close>

fun lev :: "rune list \<Rightarrow> rune list \<Rightarrow> nat" where
  "lev [] ys = length ys"
| "lev (x # xs) [] = Suc (length xs)"
| "lev (x # xs) (y # ys) =
     min (min (Suc (lev xs (y # ys))) (Suc (lev (x # xs) ys)))
         (lev xs ys + (if x = y then 0 else 1))"

definition editDistance :: "string \<Rightarrow> string \<Rightarrow> nat" where
  "editDistance s t = lev (extractRunes s) (extractRunes t)"

section \<open>Get, Set and Delete\<close>

definition lookup :: "node \<Rightarrow> rune list \<Rightarrow> KV option" where
  "lookup n path = (case walk n path of None \<Rightarrow> None | Some x \<Rightarrow> data x)"

lemma map_of_map_store: "map_of (map_store r z cs) = (map_of cs)(r \<mapsto> z)"
  by (induction cs) (auto simp: fun_eq_iff)

lemma lookup_Nil [simp]: "lookup n [] = data n"
  by (simp add: lookup_def)

lemma lookup_Cons:
  "lookup n (r # path) = (case map_of (child n) r of None \<Rightarrow> None | Some x \<Rightarrow> lookup x path)"
  by (simp add: lookup_def split: option.splits)

lemma lookup_leaf [simp]: "lookup (Node [] None) path = None"
  by (cases path) (simp_all add: lookup_Cons)

lemma lookup_set_node:
  "lookup (set_node path kv n) path' = (if path' = path then Some kv else lookup n path')"
proof (induction path arbitrary: n path')
  case Nil
  then show ?case by (cases path') (simp_all add: lookup_Cons)
next
  case (Cons r path)
  show ?case
  proof (cases path')
    case Nil
    then show ?thesis by (simp split: option.splits)
  next
    case (Cons r' path'')
    then show ?thesis
      by (auto simp: lookup_Cons map_of_map_store Cons.IH split: option.splits)
  qed
qed

lemma Trie_Get_lookup:
  "Trie_Get t key = (case lookup (root t) (extractRunes key) of
                       None \<Rightarrow> ('''', False) | Some kv \<Rightarrow> (Value kv, True))"
  by (simp add: Trie_Get_def lookup_def split: option.splits)

lemma extractRunes_Nil [simp]: "extractRunes [] = []"
  by (simp add: extractRunes.simps)

lemma extractRunes_eq_Nil [simp]: "extractRunes s = [] \<longleftrightarrow> s = []"
  by (subst extractRunes.simps) simp

subsection \<open>Valid keys and their scalars\<close>

lemma byte_range: "0 \<le> byte c" "byte c < 256"
proof -
  have "byte c = int (of_char c)" by (simp add: byte_def of_nat_of_char)
  then show "0 \<le> byte c" "byte c < 256" by simp_all
qed

lemma byte_inj: "byte c = byte c' \<Longrightarrow> c = c'"
  by (simp add: byte_def)

text \<open>The four shapes of a valid encoding at the head of a string.\<close>

datatype shape = Shape1 char | Shape2 char char | Shape3 char char char | Shape4 char char char char

fun shape_bytes :: "shape \<Rightarrow> string" where
  "shape_bytes (Shape1 a) = [a]"
| "shape_bytes (Shape2 a b) = [a, b]"
| "shape_bytes (Shape3 a b c) = [a, b, c]"
| "shape_bytes (Shape4 a b c e) = [a, b, c, e]"

fun shape_rune :: "shape \<Rightarrow> rune" where
  "shape_rune (Shape1 a) = byte a"
| "shape_rune (Shape2 a b) = (byte a - 192) * 64 + (byte b - 128)"
| "shape_rune (Shape3 a b c) = (byte a - 224) * 4096 + (byte b - 128) * 64 + (byte c - 128)"
| "shape_rune (Shape4 a b c e) =
     (byte a - 240) * 262144 + (byte b - 128) * 4096 + (byte c - 128) * 64 + (byte e - 128)"

fun shape_ok :: "shape \<Rightarrow> bool" where
  "shape_ok (Shape1 a) = (byte a < 128)"
| "shape_ok (Shape2 a b) = (194 \<le> byte a \<and> byte a < 224 \<and> 128 \<le> byte b \<and> byte b \<le> 191)"
| "shape_ok (Shape3 a b c) =
     (224 \<le> byte a \<and> byte a < 240 \<and> 128 \<le> byte b \<and> byte b \<le> 191
      \<and> (byte a = 224 \<longrightarrow> 160 \<le> byte b) \<and> 128 \<le> byte c \<and> byte c \<le> 191)"
| "shape_ok (Shape4 a b c e) =
     (240 \<le> byte a \<and> byte a \<le> 244 \<and> 128 \<le> byte b \<and> byte b \<le> 191
      \<and> (byte a = 240 \<longrightarrow> 144 \<le> byte b) \<and> 128 \<le> byte c \<and> byte c \<le> 191
      \<and> 128 \<le> byte e \<and> byte e \<le> 191)"

lemma lead_mod:
  fixes b :: int
  shows "192 \<le> b \<Longrightarrow> b < 224 \<Longrightarrow> b mod 32 = b - 192"
    and "224 \<le> b \<Longrightarrow> b < 240 \<Longrightarrow> b mod 16 = b - 224"
    and "240 \<le> b \<Longrightarrow> b < 248 \<Longrightarrow> b mod 8 = b - 240"
    and "128 \<le> b \<Longrightarrow> b < 192 \<Longrightarrow> b mod 64 = b - 128"
  by presburger+

lemma decode_shape:
  assumes "s \<noteq> []" and "DecodeRuneInString s \<noteq> (RuneError, 1)"
  shows "\<exists>sh. shape_ok sh \<and> take (length (shape_bytes sh)) s = shape_bytes sh
            \<and> DecodeRuneInString s = (shape_rune sh, length (shape_bytes sh))"
proof -
  from assms(1) obtain c0 rest where s: "s = c0 # rest" by (cases s) auto
  consider (one) "byte c0 < 128" | (bad) "128 \<le> byte c0 \<and> byte c0 < 194 \<or> 244 < byte c0"
    | (two) "194 \<le> byte c0" "byte c0 < 224" | (three) "224 \<le> byte c0" "byte c0 < 240"
    | (four) "240 \<le> byte c0" "byte c0 \<le> 244"
    by linarith
  then show ?thesis
  proof cases
    case one
    then have "DecodeRuneInString s = (byte c0, 1)"
      by (simp add: s DecodeRuneInString_def)
    with one show ?thesis by (intro exI [of _ "Shape1 c0"]) (simp add: s)
  next
    case bad
    then have "DecodeRuneInString s = (RuneError, 1)"
      by (auto simp: s DecodeRuneInString_def Let_def)
    with assms(2) show ?thesis by simp
  next
    case two
    have "rest \<noteq> []"
    proof
      assume "rest = []"
      with two have "DecodeRuneInString s = (RuneError, 1)"
        by (simp add: s DecodeRuneInString_def Let_def)
      with assms(2) show False by simp
    qed
    then obtain c1 rest1 where r: "rest = c1 # rest1" by (cases rest) auto
    have b1: "128 \<le> byte c1 \<and> byte c1 \<le> 191"
    proof (rule ccontr)
      assume "\<not> (128 \<le> byte c1 \<and> byte c1 \<le> 191)"
      with two have "DecodeRuneInString s = (RuneError, 1)"
        by (auto simp: s r DecodeRuneInString_def Let_def accept_lo_def accept_hi_def)
      with assms(2) show False by simp
    qed
    with two have "DecodeRuneInString s = ((byte c0 - 192) * 64 + (byte c1 - 128), 2)"
      by (simp add: s r DecodeRuneInString_def Let_def accept_lo_def accept_hi_def lead_mod)
    with two b1 show ?thesis by (intro exI [of _ "Shape2 c0 c1"]) (simp add: s r)
  next
    case three
    have "\<not> length rest < 2"
    proof
      assume "length rest < 2"
      then have "length s < 3" by (simp add: s)
      with three have "DecodeRuneInString s = (RuneError, 1)"
        by (simp add: s DecodeRuneInString_def Let_def del: length_Cons)
      with assms(2) show False by simp
    qed
    then obtain c1 c2 rest2 where r: "rest = c1 # c2 # rest2"
      by (cases rest; cases "tl rest") auto
    have b1: "accept_lo (byte c0) \<le> byte c1 \<and> byte c1 \<le> accept_hi (byte c0)"
    proof (rule ccontr)
      assume "\<not> (accept_lo (byte c0) \<le> byte c1 \<and> byte c1 \<le> accept_hi (byte c0))"
      with three have "DecodeRuneInString s = (RuneError, 1)"
        by (auto simp: s r DecodeRuneInString_def Let_def)
      with assms(2) show False by simp
    qed
    have b2: "128 \<le> byte c2 \<and> byte c2 \<le> 191"
    proof (rule ccontr)
      assume "\<not> (128 \<le> byte c2 \<and> byte c2 \<le> 191)"
      with three b1 have "DecodeRuneInString s = (RuneError, 1)"
        by (auto simp: s r DecodeRuneInString_def Let_def)
      with assms(2) show False by simp
    qed
    from three b1 have b1': "128 \<le> byte c1" "byte c1 \<le> 191" "byte c0 = 224 \<longrightarrow> 160 \<le> byte c1"
      by (auto simp: accept_lo_def accept_hi_def split: if_splits)
    from three b1 b2 b1'
    have "DecodeRuneInString s
            = ((byte c0 - 224) * 4096 + (byte c1 - 128) * 64 + (byte c2 - 128), 3)"
      by (simp add: s r DecodeRuneInString_def Let_def lead_mod)
    with three b1' b2 show ?thesis by (intro exI [of _ "Shape3 c0 c1 c2"]) (simp add: s r)
  next
    case four
    have "\<not> length rest < 3"
    proof
      assume "length rest < 3"
      then have "length s < 4" by (simp add: s)
      with four have "DecodeRuneInString s = (RuneError, 1)"
        by (simp add: s DecodeRuneInString_def Let_def del: length_Cons)
      with assms(2) show False by simp
    qed
    then obtain c1 c2 c3 rest3 where r: "rest = c1 # c2 # c3 # rest3"
      by (cases rest; cases "tl rest"; cases "tl (tl rest)") auto
    have b1: "accept_lo (byte c0) \<le> byte c1 \<and> byte c1 \<le> accept_hi (byte c0)"
    proof (rule ccontr)
      assume "\<not> (accept_lo (byte c0) \<le> byte c1 \<and> byte c1 \<le> accept_hi (byte c0))"
      with four have "DecodeRuneInString s = (RuneError, 1)"
        by (auto simp: s r DecodeRuneInString_def Let_def)
      with assms(2) show False by simp
    qed
    have b2: "128 \<le> byte c2 \<and> byte c2 \<le> 191"
    proof (rule ccontr)
      assume "\<not> (128 \<le> byte c2 \<and> byte c2 \<le> 191)"
      with four b1 have "DecodeRuneInString s = (RuneError, 1)"
        by (auto simp: s r DecodeRuneInString_def Let_def)
      with assms(2) show False by simp
    qed
    have b3: "128 \<le> byte c3 \<and> byte c3 \<le> 191"
    proof (rule ccontr)
      assume "\<not> (128 \<le> byte c3 \<and> byte c3 \<le> 191)"
      with four b1 b2 have "DecodeRuneInString s = (RuneError, 1)"
        by (auto simp: s r DecodeRuneInString_def Let_def)
      with assms(2) show False by simp
    qed
    from four b1 have b1': "128 \<le> byte c1" "byte c1 \<le> 191" "byte c0 = 240 \<longrightarrow> 144 \<le> byte c1"
      by (auto simp: accept_lo_def accept_hi_def split: if_splits)
    from four b1 b2 b3 b1'
    have "DecodeRuneInString s
            = ((byte c0 - 240) * 262144 + (byte c1 - 128) * 4096 + (byte c2 - 128) * 64
                 + (byte c3 - 128), 4)"
      by (simp add: s r DecodeRuneInString_def Let_def lead_mod)
    with four b1' b2 b3 show ?thesis by (intro exI [of _ "Shape4 c0 c1 c2 c3"]) (simp add: s r)
  qed
qed

lemma shape_width:
  assumes "shape_ok sh"
  shows "length (shape_bytes sh) =
           (if shape_rune sh < 128 then 1 else if shape_rune sh < 2048 then 2
            else if shape_rune sh < 65536 then 3 else 4)"
proof (cases sh)
  case (Shape1 a)
  with assms show ?thesis by simp
next
  case (Shape2 a b)
  with assms show ?thesis by simp
next
  case (Shape3 a b c)
  with assms have "2048 \<le> shape_rune sh" "shape_rune sh < 65536"
    by (auto simp: Shape3)
  with Shape3 show ?thesis by simp
next
  case (Shape4 a b c e)
  with assms have "65536 \<le> shape_rune sh" by (auto simp: Shape4)
  with Shape4 show ?thesis by simp
qed

lemma shape_inj:
  assumes "shape_ok sh" and "shape_ok sh'" and "shape_rune sh = shape_rune sh'"
  shows "sh = sh'"
proof -
  from shape_width [OF assms(1)] shape_width [OF assms(2)] assms(3)
  have len: "length (shape_bytes sh) = length (shape_bytes sh')" by simp
  show ?thesis
  proof (cases sh)
    case (Shape1 a)
    with len obtain a' where sh': "sh' = Shape1 a'" by (cases sh') simp_all
    with assms(3) Shape1 show ?thesis by (simp add: byte_inj)
  next
    case (Shape2 a b)
    with len obtain a' b' where sh': "sh' = Shape2 a' b'" by (cases sh') simp_all
    from assms Shape2 sh' have "byte a = byte a'" by (simp; linarith)
    moreover from this assms Shape2 sh' have "byte b = byte b'" by simp
    ultimately show ?thesis by (simp add: Shape2 sh' byte_inj)
  next
    case (Shape3 a b c)
    with len obtain a' b' c' where sh': "sh' = Shape3 a' b' c'" by (cases sh') simp_all
    from assms Shape3 sh' have a: "byte a = byte a'" by (simp; linarith)
    from a assms Shape3 sh' have b: "byte b = byte b'" by (simp; linarith)
    from a b assms Shape3 sh' have "byte c = byte c'" by simp
    with a b show ?thesis by (simp add: Shape3 sh' byte_inj)
  next
    case (Shape4 a b c e)
    with len obtain a' b' c' e' where sh': "sh' = Shape4 a' b' c' e'" by (cases sh') simp_all
    from assms Shape4 sh' have a: "byte a = byte a'" by (simp; linarith)
    from a assms Shape4 sh' have b: "byte b = byte b'" by (simp; linarith)
    from a b assms Shape4 sh' have c: "byte c = byte c'" by (simp; linarith)
    from a b c assms Shape4 sh' have "byte e = byte e'" by simp
    with a b c show ?thesis by (simp add: Shape4 sh' byte_inj)
  qed
qed

lemma decode_inj:
  assumes "s \<noteq> []" and "s' \<noteq> []"
    and "DecodeRuneInString s \<noteq> (RuneError, 1)" and "DecodeRuneInString s' \<noteq> (RuneError, 1)"
    and "fst (DecodeRuneInString s) = fst (DecodeRuneInString s')"
  shows "snd (DecodeRuneInString s) = snd (DecodeRuneInString s')
       \<and> take (snd (DecodeRuneInString s)) s = take (snd (DecodeRuneInString s)) s'"
proof -
  from decode_shape [OF assms(1,3)] obtain sh where sh: "shape_ok sh"
    "take (length (shape_bytes sh)) s = shape_bytes sh"
    "DecodeRuneInString s = (shape_rune sh, length (shape_bytes sh))" by blast
  from decode_shape [OF assms(2,4)] obtain sh' where sh': "shape_ok sh'"
    "take (length (shape_bytes sh')) s' = shape_bytes sh'"
    "DecodeRuneInString s' = (shape_rune sh', length (shape_bytes sh'))" by blast
  from assms(5) sh(3) sh'(3) have "shape_rune sh = shape_rune sh'" by simp
  with sh(1) sh'(1) have "sh = sh'" by (rule shape_inj)
  with sh sh' show ?thesis by simp
qed

text \<open>Valid keys are told apart by their scalars.\<close>

lemma extractRunes_inj:
  assumes "valid_utf8 s" and "valid_utf8 s'" and "extractRunes s = extractRunes s'"
  shows "s = s'"
  using assms
proof (induction s arbitrary: s' rule: extractRunes.induct)
  case (1 s)
  show ?case
  proof (cases "s = []")
    case True
    with "1.prems"(3) have "extractRunes s' = []" by simp
    with True show ?thesis by simp
  next
    case False
    with "1.prems"(3) have ne': "s' \<noteq> []" by (metis extractRunes_eq_Nil)
    from "1.prems"(1) False have ok: "DecodeRuneInString s \<noteq> (RuneError, 1)"
      and tl: "valid_utf8 (drop (snd (DecodeRuneInString s)) s)"
      by (subst (asm) valid_utf8.simps, simp split: if_splits)+
    from "1.prems"(2) ne' have ok': "DecodeRuneInString s' \<noteq> (RuneError, 1)"
      and tl': "valid_utf8 (drop (snd (DecodeRuneInString s')) s')"
      by (subst (asm) valid_utf8.simps, simp split: if_splits)+
    from "1.prems"(3) False ne'
    have hd: "fst (DecodeRuneInString s) = fst (DecodeRuneInString s')"
      and rest: "extractRunes (drop (snd (DecodeRuneInString s)) s)
                   = extractRunes (drop (snd (DecodeRuneInString s')) s')"
      by (subst (asm) extractRunes.simps, subst (asm) (2) extractRunes.simps, simp)+
    note same = decode_inj [OF False ne' ok ok' hd]
    from same have w: "snd (DecodeRuneInString s) = snd (DecodeRuneInString s')"
      by (rule conjunct1)
    from same have tk: "take (snd (DecodeRuneInString s)) s = take (snd (DecodeRuneInString s)) s'"
      by (rule conjunct2)
    from "1.IH" [OF False tl tl' rest]
    have "drop (snd (DecodeRuneInString s)) s = drop (snd (DecodeRuneInString s)) s'"
      by (simp add: w)
    with tk show ?thesis by (metis append_take_drop_id)
  qed
qed

text \<open>
  C9. After \<open>set(k1, v1); set(k2, v2)\<close> on any trie, \<open>get(k2)\<close> returns \<open>(v2, true)\<close>, and
  \<open>get(k1)\<close> returns \<open>(v1, true)\<close> when the two keys decode to different scalar sequences
  and \<open>(v2, true)\<close> when they decode to the same one. Two keys that are valid UTF-8 decode
  to the same sequence only when they are equal, so for them \<open>get(k1)\<close> returns
  \<open>(v1, true)\<close> when \<open>k1 \<noteq> k2\<close> and \<open>(v2, true)\<close> when \<open>k1 = k2\<close>.
\<close>

theorem set_set_get:
  "Trie_Get (Trie_Set (Trie_Set t k1 v1) k2 v2) k1 =
     (if extractRunes k1 = extractRunes k2 then (v2, True) else (v1, True))
   \<and> Trie_Get (Trie_Set (Trie_Set t k1 v1) k2 v2) k2 = (v2, True)
   \<and> (valid_utf8 k1 \<and> valid_utf8 k2 \<longrightarrow>
        Trie_Get (Trie_Set (Trie_Set t k1 v1) k2 v2) k1 = (if k1 = k2 then (v2, True) else (v1, True)))"
proof -
  have decoded: "Trie_Get (Trie_Set (Trie_Set t k1 v1) k2 v2) k1 =
      (if extractRunes k1 = extractRunes k2 then (v2, True) else (v1, True))"
    and last: "Trie_Get (Trie_Set (Trie_Set t k1 v1) k2 v2) k2 = (v2, True)"
    by (simp_all add: Trie_Get_lookup Trie_Set_def lookup_set_node)
  have "extractRunes k1 = extractRunes k2 \<longleftrightarrow> k1 = k2" if "valid_utf8 k1" "valid_utf8 k2"
    using extractRunes_inj [OF that] by auto
  with decoded last show ?thesis by simp
qed

theorem set_set_get_witness:
  "valid_utf8 [CHR 0xC3, CHR 0xA9] \<and> valid_utf8 ''e''
   \<and> Trie_Get (Trie_Set (Trie_Set New [CHR 0xC3, CHR 0xA9] ''1'') ''e'' ''2'') [CHR 0xC3, CHR 0xA9]
         = (''1'', True)
   \<and> Trie_Get (Trie_Set (Trie_Set New [CHR 0xC3, CHR 0xA9] ''1'') ''e'' ''2'') ''e'' = (''2'', True)"
proof -
  have v: "valid_utf8 [CHR 0xC3, CHR 0xA9]" "valid_utf8 ''e''" by code_simp+
  have ne: "extractRunes [CHR 0xC3, CHR 0xA9] \<noteq> extractRunes ''e''" by code_simp
  from set_set_get [of New "[CHR 0xC3, CHR 0xA9]" "''1''" "''e''" "''2''"] v ne
  show ?thesis by simp
qed

text \<open>
  C9 as stated fails for keys that are not valid UTF-8: the byte \<open>0xFF\<close> is no encoding
  and decodes to U+FFFD, whose own encoding is \<open>0xEF 0xBF 0xBD\<close>; the two keys differ and
  share one trie node.
\<close>

theorem set_set_get_distinct_keys_collide:
  "[CHR 0xFF] \<noteq> [CHR 0xEF, CHR 0xBF, CHR 0xBD]
   \<and> Trie_Get (Trie_Set (Trie_Set New [CHR 0xFF] ''1'') [CHR 0xEF, CHR 0xBF, CHR 0xBD] ''2'')
        [CHR 0xFF] = (''2'', True)"
  by code_simp

text \<open>
  C2. \<^verbatim>\<open>Delete\<close> of one key leaves every other key as it was. The code does not: the cut
  point moves only past nodes with more than one child, so a terminal ancestor with a
  single child is cut off with the deleted leaf. (The sequence is the one of the
  repository's \<^verbatim>\<open>TestDeletePathCleanup\<close>, which expects \<open>alpha\<close> to stay.)
\<close>

theorem delete_removes_terminal_ancestor:
  "Trie_Get (Trie_Set (Trie_Set New ''alpha'' ''1'') ''alphabet'' ''2'') ''alpha'' = (''1'', True)
   \<and> Trie_Delete (Trie_Set (Trie_Set New ''alpha'' ''1'') ''alphabet'' ''2'') ''alphabet'' = Inr New
   \<and> Trie_Get New ''alpha'' = ('''', False)"
  by code_simp

text \<open>\<^verbatim>\<open>Set\<close> with a key that is not empty, and \<^verbatim>\<open>Delete\<close>, leave the root without an entry.\<close>

lemma data_set_node: "path \<noteq> [] \<Longrightarrow> data (set_node path kv n) = data n"
  by (cases path) (simp_all split: option.splits)

lemma data_modify_at:
  assumes "\<And>x. data x = None \<Longrightarrow> data (f x) = None" and "data n = None"
  shows "data (modify_at path f n) = None"
  using assms by (cases path) (simp_all split: option.splits)

lemma data_Trie_Delete:
  assumes "Trie_Delete t key = Inr t'" and "data (root t) = None"
  shows "data (root t') = None"
proof -
  have clear: "data (modify_at path clear_data (root t)) = None" for path
    by (rule data_modify_at) (simp_all add: clear_data_def assms(2))
  have cut: "data (modify_at path' (drop_child r) (modify_at path clear_data (root t))) = None"
    for path path' r
    by (rule data_modify_at) (simp_all add: drop_child_def clear)
  from assms show ?thesis
    by (auto simp: Trie_Delete_def Let_def clear cut split: option.splits prod.splits if_splits)
qed

lemma data_exec:
  assumes "exec c t = Inr (t', out)" and "\<not> sets_empty_key c" and "data (root t) = None"
  shows "data (root t') = None"
  using assms
  by (cases c)
     (auto simp: found_def Trie_Set_def data_set_node split: sum.splits dest: data_Trie_Delete)

lemma data_run:
  assumes "run cs t = Inr t'" and "\<forall>c\<in>set cs. \<not> sets_empty_key c" and "data (root t) = None"
  shows "data (root t') = None"
  using assms
proof (induction cs arbitrary: t)
  case Nil
  then show ?case by simp
next
  case (Cons c cs)
  from Cons.prems(1) obtain t1 out where ex: "exec c t = Inr (t1, out)" and rest: "run cs t1 = Inr t'"
    by (auto split: sum.splits)
  from data_exec [OF ex] Cons.prems have "data (root t1) = None" by simp
  with Cons.IH [OF rest] Cons.prems(2) show ?case by simp
qed

text \<open>
  C7. The root carries no entry in a new trie, and none after any sequence of public
  operations that runs to its end and holds no \<^verbatim>\<open>Set\<close> with the empty key; \<open>Get("")\<close> then
  returns \<open>("", false)\<close>.
\<close>

theorem root_not_terminal:
  assumes "run cs New = Inr t" and "\<forall>c\<in>set cs. \<not> sets_empty_key c"
  shows "data (root t) = None \<and> Trie_Get t '''' = ('''', False)"
proof -
  have "data (root t) = None"
    using data_run [OF assms] by (simp add: New_def)
  then show ?thesis by (simp add: Trie_Get_def)
qed

theorem root_not_terminal_witness:
  "run [OpSet ''a'' ''1'', OpDelete ''b'', OpGet ''''] New = Inr (Trie_Set New ''a'' ''1'')
   \<and> data (root (Trie_Set New ''a'' ''1'')) = None
   \<and> Trie_Get (Trie_Set New ''a'' ''1'') '''' = ('''', False)"
proof -
  have r: "run [OpSet ''a'' ''1'', OpDelete ''b'', OpGet ''''] New = Inr (Trie_Set New ''a'' ''1'')"
    by code_simp
  have h: "\<forall>c\<in>set [OpSet ''a'' ''1'', OpDelete ''b'', OpGet '''']. \<not> sets_empty_key c"
    by simp
  from root_not_terminal [OF r h] r show ?thesis by simp
qed

text \<open>
  C7 as stated fails: \<^verbatim>\<open>Set\<close> with the empty key makes no step of its loop and installs
  the entry at the root (the repository's \<^verbatim>\<open>TestSuggestSuffixes\<close> stores the key \<open>""\<close>).
\<close>

theorem root_terminal_after_set_empty_key:
  "data (root (Trie_Set New '''' ''v'')) = Some (KV '''' ''v'')
   \<and> Trie_Get (Trie_Set New '''' ''v'') '''' = (''v'', True)"
  by code_simp



section \<open>The searches\<close>

text \<open>
  C1. \<^verbatim>\<open>Suggest\<close> returns exactly the entries whose keys are within distance \<open>d\<close> of the
  query. The code does not: \<^verbatim>\<open>accepts\<close> converts the number of query scalars still to
  match to \<^verbatim>\<open>int8\<close>, so 256 scalars to go count as none. With the single key \<open>a\<close>, the
  query of 257 letters \<open>a\<close> and \<open>d = 0\<close> the key is returned, at distance 256.
\<close>

theorem suggest_returns_key_at_distance_256:
  "Suggest (Trie_Set New ''a'' ''v'') (replicate 257 CHR ''a'') 0 1 = Inr [KV ''a'' ''v'']
   \<and> editDistance ''a'' (replicate 257 CHR ''a'') = 256"
  by code_simp

text \<open>
  C3 as stated fails: a key is returned when the traversal reaches its node, in the
  stratum of the automaton's minimum there, and a prefix of the query is reached before
  the query itself (the data and the query are those of the repository's
  \<^verbatim>\<open>TestSuggestReturnsResultsInIncreasingEditDistance\<close>, which expects this order).
\<close>

theorem suggest_prefix_before_closer_key:
  "Suggest (Trie_Set (Trie_Set New ''xxx'' ''1'') ''xxxxxx'' ''2'') ''xxxxxx'' 3 10
     = Inr [KV ''xxx'' ''1'', KV ''xxxxxx'' ''2'']
   \<and> editDistance ''xxx'' ''xxxxxx'' = 3 \<and> editDistance ''xxxxxx'' ''xxxxxx'' = 0"
  by code_simp

text \<open>
  C5. For every bound \<open>0 \<le> d \<le> 126\<close> and every limit \<open>\<ge> 0\<close> each of the four searches
  returns a sequence of at most \<open>limit\<close> entries, and none panics. The code does not:
  \<^verbatim>\<open>newState\<close> computes the length \<^verbatim>\<open>2*d+1\<close> in \<^verbatim>\<open>int8\<close> (where \<^verbatim>\<open>newNfa\<close>
  computes \<^verbatim>\<open>3*int(d)+2\<close> in \<^verbatim>\<open>int\<close>), which is negative from \<open>d = 64\<close> on, and
  \<^verbatim>\<open>make\<close> panics, on the empty trie and the empty query already.
\<close>

theorem suggest_panics_at_64:
  "Suggest New '''' 64 0 = Inl MakeSliceLenOutOfRange"
  by code_simp

text \<open>
  From \<open>d = 32\<close> on the counter of the jump table, which reaches \<open>4d + 2\<close>, leaves the
  range of \<^verbatim>\<open>int8\<close>: the minimum handed back by \<^verbatim>\<open>transition\<close> is negative and
  \<^verbatim>\<open>stacks[min]\<close> panics.
\<close>

lemma suggest_panics_at_32:
  "Suggest (Trie_Set New ''a'' ''v'') '''' 32 1 = Inl IndexOutOfRange"
  by code_simp

text \<open>
  C6. For every bound \<open>0 \<le> d \<le> 126\<close> and every limit that is at least the number of
  stored entries, \<^verbatim>\<open>SuggestSuffixes\<close> returns every stored entry whose key has a prefix
  within distance \<open>d\<close> of the query. The code does not from \<open>d = 32\<close> on, by the same
  \<^verbatim>\<open>int8\<close> arithmetic: with the single key \<open>ba\<close>, which is at distance 32 from the query
  of 33 letters \<open>a\<close>, and \<open>d = 32\<close> the transition on \<open>b\<close> reports a negative minimum and
  \<^verbatim>\<open>stacks[min]\<close> panics; with the single key \<open>a\<close>, the query \<open>a\<close> and \<open>d = 64\<close>
  \<^verbatim>\<open>make\<close> panics.
\<close>

theorem suggest_suffixes_panics_at_32:
  "SuggestSuffixes (Trie_Set New ''ba'' ''v'') (replicate 33 CHR ''a'') 32 1 = Inl IndexOutOfRange
   \<and> Trie_Get (Trie_Set New ''ba'' ''v'') ''ba'' = (''v'', True)
   \<and> editDistance ''ba'' (replicate 33 CHR ''a'') = 32
   \<and> SuggestSuffixes (Trie_Set New ''a'' ''v'') ''a'' 64 1 = Inl MakeSliceLenOutOfRange
   \<and> Trie_Get (Trie_Set New ''a'' ''v'') ''a'' = (''v'', True)
   \<and> editDistance ''a'' ''a'' = 0"
  by code_simp

text \<open>
  The searches after an exact prefix, when \<open>p\<close> is beyond the scalars of the query:
  \<^verbatim>\<open>runes[:p]\<close> panics when \<open>p\<close> is beyond the capacity; within the capacity the descent
  runs over the query's scalars and the spare cells, and when it finds a node
  \<^verbatim>\<open>runes[p:]\<close> panics.
\<close>

lemma exact_prefix_search_beyond:
  assumes "int (length (extractRunes key)) < p"
  shows "exact_prefix_search process spare t key p dd n =
     (if int (length (runes_backing (extractRunes key) spare)) < p
      then Inl SliceBoundsOutOfRange
      else case walk (root t) (take (nat p) (runes_backing (extractRunes key) spare)) of
             None \<Rightarrow> Inr []
           | Some cur \<Rightarrow> Inl SliceBoundsOutOfRange)"
  using assms
  by (auto simp: exact_prefix_search_def slice_to_def slice_from_def Let_def
           split: option.splits)

text \<open>
  C8. When \<open>p\<close> exceeds the number of scalars of the query, the two searches after an
  exact prefix return no entry: the empty sequence when \<open>p\<close> is within the capacity of
  the rune slice and the trie has no path for the slice resliced to \<open>p\<close> cells, and a
  slice-bounds panic otherwise.
\<close>

theorem exact_prefix_beyond_query:
  assumes "int (length (extractRunes key)) < p"
  shows "SuggestAfterExactPrefix spare t key p dd n =
           (if int (length (runes_backing (extractRunes key) spare)) < p
            then Inl SliceBoundsOutOfRange
            else case walk (root t) (take (nat p) (runes_backing (extractRunes key) spare)) of
                   None \<Rightarrow> Inr []
                 | Some cur \<Rightarrow> Inl SliceBoundsOutOfRange)
       \<and> SuggestSuffixesAfterExactPrefix spare t key p dd n =
           (if int (length (runes_backing (extractRunes key) spare)) < p
            then Inl SliceBoundsOutOfRange
            else case walk (root t) (take (nat p) (runes_backing (extractRunes key) spare)) of
                   None \<Rightarrow> Inr []
                 | Some cur \<Rightarrow> Inl SliceBoundsOutOfRange)"
  unfolding SuggestAfterExactPrefix_def SuggestSuffixesAfterExactPrefix_def
  using exact_prefix_search_beyond [OF assms] by simp

theorem exact_prefix_beyond_query_witness:
  "int (length (extractRunes ''a'')) < 2
   \<and> SuggestAfterExactPrefix [0] (Trie_Set New ''b'' ''1'') ''a'' 2 1 10 = Inr []
   \<and> SuggestSuffixesAfterExactPrefix [0] (Trie_Set New ''b'' ''1'') ''a'' 2 1 10 = Inr []"
proof -
  have h: "int (length (extractRunes ''a'')) < 2" by code_simp
  have w: "walk (root (Trie_Set New ''b'' ''1'')) (take (nat 2) (runes_backing (extractRunes ''a'') [0]))
             = None"
    by code_simp
  have c: "\<not> int (length (runes_backing (extractRunes ''a'') [0])) < 2" by code_simp
  from exact_prefix_beyond_query [OF h, of "[0]" "Trie_Set New ''b'' ''1''" 1 10] h w c
  show ?thesis by simp
qed

text \<open>
  C8 as stated fails: the empty query decodes to the literal \<^verbatim>\<open>[]rune{}\<close>, of capacity 0,
  and \<^verbatim>\<open>runes[:1]\<close> panics.
\<close>

theorem exact_prefix_beyond_empty_query_panics:
  "int (length (extractRunes '''')) < 1
   \<and> SuggestAfterExactPrefix [] (Trie_Set New ''b'' ''1'') '''' 1 1 10 = Inl SliceBoundsOutOfRange
   \<and> SuggestSuffixesAfterExactPrefix [] (Trie_Set New ''b'' ''1'') '''' 1 1 10
        = Inl SliceBoundsOutOfRange"
  by code_simp

section \<open>One transition of the automaton\<close>

lemma i8_id: "- 128 \<le> x \<Longrightarrow> x \<le> 127 \<Longrightarrow> i8 x = x"
  by (simp add: i8_def)

text \<open>
  The words of the specification. \<open>holds q r x\<close>: position \<open>x\<close> is a position of \<open>Q\<close> and
  \<open>Q\<close> has the scalar \<open>r\<close> there. \<open>scan q r p n\<close>: the distance from \<open>p\<close> to the next such
  position among the \<open>n\<close> positions from \<open>p\<close> on. \<open>next_dist q r p cap\<close>: the distance to
  the next position \<open>\<ge> p\<close> in \<open>Q\<close> holding \<open>r\<close>, capped at \<open>cap\<close>.
\<close>

definition holds :: "rune list \<Rightarrow> rune \<Rightarrow> int \<Rightarrow> bool" where
  "holds q r x = (0 \<le> x \<and> x < int (length q) \<and> q ! nat x = r)"

fun scan :: "rune list \<Rightarrow> rune \<Rightarrow> int \<Rightarrow> nat \<Rightarrow> nat option" where
  "scan q r p 0 = None"
| "scan q r p (Suc n) = (if holds q r p then Some 0 else map_option Suc (scan q r (p + 1) n))"

definition next_dist :: "rune list \<Rightarrow> rune \<Rightarrow> int \<Rightarrow> int \<Rightarrow> int" where
  "next_dist q r p cap = (case scan q r p (nat cap) of Some k \<Rightarrow> int k | None \<Rightarrow> cap)"

text \<open>
  The successor cell of diagonal \<open>j\<close>: the least of the horizontal, diagonal and vertical
  contributions, \<open>d + 1\<close> when that is \<open>d + 1\<close> or more. The reported minimum: the smallest
  active cell, \<open>d + 1\<close> when no cell is active.
\<close>

definition spec_cell :: "rune list \<Rightarrow> int \<Rightarrow> state \<Rightarrow> rune \<Rightarrow> nat \<Rightarrow> int" where
  "spec_cell q dd s r j =
     (let horizontal = arr s ! j + next_dist q r (offset s + int j + arr s ! j) (dd + 1);
          diagonal = (if int j < 2 * dd then [arr s ! (j + 1) + 1] else []);
          vertical = (if int j < 2 * dd - 1 then [arr s ! (j + 2) + 1] else []);
          m = Min (set (horizontal # diagonal @ vertical))
      in if dd + 1 \<le> m then dd + 1 else m)"

definition spec_min :: "int \<Rightarrow> int list \<Rightarrow> int" where
  "spec_min dd a =
     (let active = filter (\<lambda>x. x < dd + 1) a in if active = [] then dd + 1 else Min (set active))"

definition spec_transition :: "rune list \<Rightarrow> int \<Rightarrow> state \<Rightarrow> rune \<Rightarrow> state \<times> int" where
  "spec_transition q dd s r =
     (let a = map (spec_cell q dd s r) [0..<nat (2 * dd + 1)]
      in (State (offset s + 1) a, spec_min dd a))"

text \<open>The representation invariant of a state of the automaton for the bound \<open>d\<close>.\<close>

definition state_ok :: "int \<Rightarrow> state \<Rightarrow> bool" where
  "state_ok dd s = (length (arr s) = nat (2 * dd + 1) \<and> list_all (\<lambda>x. 0 \<le> x \<and> x \<le> dd + 1) (arr s))"

subsection \<open>The jump table\<close>

lemma scan_snoc:
  "scan q r p (Suc n) =
     (case scan q r p n of
        Some h \<Rightarrow> Some h
      | None \<Rightarrow> if holds q r (p + int n) then Some n else None)"
proof (induction n arbitrary: p)
  case 0
  then show ?case by simp
next
  case (Suc n)
  have step: "scan q r (p + 1) (Suc n) =
     (case scan q r (p + 1) n of
        Some h \<Rightarrow> Some h
      | None \<Rightarrow> if holds q r (p + 1 + int n) then Some n else None)"
    by (rule Suc.IH)
  have pos: "p + 1 + int n = p + int (Suc n)" by simp
  show ?case
  proof (cases "holds q r p")
    case True
    then show ?thesis by simp
  next
    case False
    have "scan q r p (Suc (Suc n)) = map_option Suc (scan q r (p + 1) (Suc n))"
      using False by (subst scan.simps(2)) simp
    also have "\<dots> = (case scan q r (p + 1) n of
                        Some h \<Rightarrow> Some (Suc h)
                      | None \<Rightarrow> if holds q r (p + int (Suc n)) then Some (Suc n) else None)"
      unfolding step pos by (simp split: option.splits)
    also have "\<dots> = (case scan q r p (Suc n) of
                        Some h \<Rightarrow> Some h
                      | None \<Rightarrow> if holds q r (p + int (Suc n)) then Some (Suc n) else None)"
    proof -
      have sp: "scan q r p (Suc n) = map_option Suc (scan q r (p + 1) n)"
        using False by simp
      show ?thesis unfolding sp by (simp split: option.splits)
    qed
    finally show ?thesis .
  qed
qed

lemma scan_None: "scan q r p n = None \<longleftrightarrow> (\<forall>k<n. \<not> holds q r (p + int k))"
proof (induction n arbitrary: p)
  case 0
  then show ?case by simp
next
  case (Suc n)
  have shift: "p + 1 + int k = p + int (Suc k)" for k by simp
  show ?case
    unfolding All_less_Suc2 by (simp add: Suc.IH shift del: of_nat_Suc)
qed

lemma scan_Some:
  "scan q r p n = Some k \<longleftrightarrow> k < n \<and> holds q r (p + int k) \<and> (\<forall>k'<k. \<not> holds q r (p + int k'))"
proof (induction n arbitrary: p k)
  case 0
  then show ?case by simp
next
  case (Suc n)
  have shift: "p + 1 + int i = p + int (Suc i)" for i by simp
  show ?case
  proof (cases k)
    case 0
    then show ?thesis by auto
  next
    case (Suc k0)
    show ?thesis
    proof (cases "holds q r p")
      case True
      then have "\<not> (\<forall>k'<k. \<not> holds q r (p + int k'))"
        unfolding Suc All_less_Suc2 by simp
      with True show ?thesis by (simp add: Suc)
    next
      case False
      have "scan q r p (Suc n) = Some k \<longleftrightarrow> scan q r (p + 1) n = Some k0"
        using False by (auto simp: Suc)
      also have "\<dots> \<longleftrightarrow> k0 < n \<and> holds q r (p + int (Suc k0))
                        \<and> (\<forall>k'<k0. \<not> holds q r (p + int (Suc k')))"
        unfolding Suc.IH shift ..
      also have "\<dots> \<longleftrightarrow> k < Suc n \<and> holds q r (p + int k) \<and> (\<forall>k'<k. \<not> holds q r (p + int k'))"
        unfolding Suc All_less_Suc2 using False by simp
      finally show ?thesis .
    qed
  qed
qed

lemma fill_jump_length [simp]: "length (fill_jump q r off k nxt jmp) = length jmp"
  by (induction k arbitrary: nxt jmp) (simp_all add: Let_def)

lemma fill_jump_nth:
  assumes "k \<le> length jmp" and "0 \<le> nxt" and "nxt + int k \<le> 127" and "i < length jmp"
  shows "fill_jump q r off k nxt jmp ! i =
     (if i < k
      then (case scan q r (off + int i) (k - i) of
              Some h \<Rightarrow> int h
            | None \<Rightarrow> nxt + int (k - 1 - i))
      else jmp ! i)"
  using assms
proof (induction k arbitrary: nxt jmp)
  case 0
  then show ?case by simp
next
  case (Suc k)
  define nxt' where "nxt' = (if holds q r (off + int k) then 0 else nxt)"
  have nxt': "0 \<le> nxt'" "nxt' \<le> nxt" using Suc.prems by (auto simp: nxt'_def)
  then have wrap: "i8 (nxt' + 1) = nxt' + 1"
    using Suc.prems by (intro i8_id) auto
  have hit: "(off + int k < int (length q) \<and> off + int k \<ge> 0 \<and> q ! nat (off + int k) = r)
               = holds q r (off + int k)"
    by (auto simp: holds_def)
  have "fill_jump q r off (Suc k) nxt jmp = fill_jump q r off k (i8 (nxt' + 1)) (jmp[k := nxt'])"
    unfolding nxt'_def fill_jump.simps Let_def hit ..
  then have unfold:
    "fill_jump q r off (Suc k) nxt jmp = fill_jump q r off k (nxt' + 1) (jmp[k := nxt'])"
    unfolding wrap .
  have IH: "fill_jump q r off k (nxt' + 1) (jmp[k := nxt']) ! i =
     (if i < k
      then (case scan q r (off + int i) (k - i) of
              Some h \<Rightarrow> int h
            | None \<Rightarrow> nxt' + 1 + int (k - 1 - i))
      else (jmp[k := nxt']) ! i)"
    using Suc.prems nxt' by (intro Suc.IH) auto
  show ?case
  proof (cases "i < k")
    case True
    then have sk: "Suc k - i = Suc (k - i)" by simp
    have pos: "off + int i + int (k - i) = off + int k" using True by simp
    from True show ?thesis
      unfolding unfold IH sk
      by (subst scan_snoc) (auto simp: pos nxt'_def split: option.splits)
  next
    case False
    show ?thesis
    proof (cases "i = k")
      case True
      with Suc.prems show ?thesis
        unfolding unfold IH by (simp add: nxt'_def)
    next
      case False
      with \<open>\<not> i < k\<close> show ?thesis
        unfolding unfold IH by simp
    qed
  qed
qed

lemma jump_cell:
  assumes "0 \<le> dd" and "dd \<le> 31" and "length jmp = nat (3 * dd + 2)" and "k < nat (3 * dd + 2)"
  shows "fill_jump q r off (length jmp) (i8 (dd + 1)) jmp ! k =
     (case scan q r (off + int k) (nat (3 * dd + 2) - k) of
        Some h \<Rightarrow> int h
      | None \<Rightarrow> 4 * dd + 2 - int k)"
proof -
  have wrap: "i8 (dd + 1) = dd + 1" using assms by (intro i8_id) auto
  have "fill_jump q r off (length jmp) (dd + 1) jmp ! k =
     (if k < length jmp
      then (case scan q r (off + int k) (length jmp - k) of
              Some h \<Rightarrow> int h
            | None \<Rightarrow> dd + 1 + int (length jmp - 1 - k))
      else jmp ! k)"
    using assms by (intro fill_jump_nth) auto
  moreover have "dd + 1 + int (length jmp - 1 - k) = 4 * dd + 2 - int k"
    using assms by auto
  ultimately show ?thesis using assms by (simp add: wrap split: option.splits)
qed

text \<open>
  The horizontal contribution read from the table and the one of the specification agree
  below the sentinel: the table looks no further than \<open>3d + 1\<close> cells from the offset, and
  what lies beyond is too far for the diagonal to stay active.
\<close>

lemma horizontal_capped:
  fixes a dd p :: int and j :: nat and q :: "rune list" and r :: rune
  assumes "0 \<le> dd" and "0 \<le> a" and "a \<le> dd + 1" and "int j \<le> 2 * dd"
  defines "k \<equiv> j + nat a"
  defines "jv \<equiv> (case scan q r p (nat (3 * dd + 2) - k) of
                    Some h \<Rightarrow> int h
                  | None \<Rightarrow> 4 * dd + 2 - int k)"
  shows "min (dd + 1) (a + jv) = min (dd + 1) (a + next_dist q r p (dd + 1))"
    and "0 \<le> jv" and "a + jv \<le> 4 * dd + 2 - int j"
proof -
  have k: "int k = int j + a" using assms by (simp add: k_def)
  have w: "int (nat (3 * dd + 2) - k) = 3 * dd + 2 - int j - a"
    using assms k by auto
  show "0 \<le> jv"
    using assms k by (auto simp: jv_def split: option.splits)
  show "a + jv \<le> 4 * dd + 2 - int j"
  proof (cases "scan q r p (nat (3 * dd + 2) - k)")
    case None
    then show ?thesis using k by (simp add: jv_def)
  next
    case (Some h)
    then have "h < nat (3 * dd + 2) - k" by (simp add: scan_Some)
    then have "int h < 3 * dd + 2 - int j - a" using w by linarith
    with Some assms show ?thesis by (simp add: jv_def)
  qed
  show "min (dd + 1) (a + jv) = min (dd + 1) (a + next_dist q r p (dd + 1))"
  proof (cases "scan q r p (nat (3 * dd + 2) - k)")
    case None
    then have far: "\<not> holds q r (p + int i)" if "i < nat (3 * dd + 2) - k" for i
      using that by (simp add: scan_None)
    have lhs: "dd + 1 \<le> a + jv" using None assms k by (simp add: jv_def)
    have rhs: "dd + 1 \<le> a + next_dist q r p (dd + 1)"
    proof (cases "scan q r p (nat (dd + 1))")
      case None
      then show ?thesis using assms by (simp add: next_dist_def)
    next
      case (Some h)
      then have "holds q r (p + int h)" by (simp add: scan_Some)
      with far [of h] have "\<not> h < nat (3 * dd + 2) - k" by blast
      then have "3 * dd + 2 - int j - a \<le> int h" using w by linarith
      with Some assms show ?thesis by (simp add: next_dist_def)
    qed
    from lhs rhs show ?thesis by simp
  next
    case (Some h)
    then have h: "h < nat (3 * dd + 2) - k" "holds q r (p + int h)"
      "\<forall>i<h. \<not> holds q r (p + int i)"
      by (simp_all add: scan_Some)
    have jv: "jv = int h" using Some by (simp add: jv_def)
    show ?thesis
    proof (cases "h < nat (dd + 1)")
      case True
      with h have "scan q r p (nat (dd + 1)) = Some h" by (simp add: scan_Some)
      then show ?thesis by (simp add: next_dist_def jv)
    next
      case False
      with h(3) have "scan q r p (nat (dd + 1)) = None" by (simp add: scan_None)
      then have "next_dist q r p (dd + 1) = dd + 1" by (simp add: next_dist_def)
      moreover from False assms have "dd + 1 \<le> int h" by linarith
      ultimately show ?thesis using assms by (simp add: jv)
    qed
  qed
qed

lemma state_okD:
  assumes "state_ok dd s"
  shows "length (arr s) = nat (2 * dd + 1)"
    and "j < length (arr s) \<Longrightarrow> 0 \<le> arr s ! j \<and> arr s ! j \<le> dd + 1"
  using assms by (auto simp: state_ok_def list_all_length)

lemma trans_cell_spec:
  assumes "0 \<le> dd" and "dd \<le> 31" and "state_ok dd s" and "length jmp = nat (3 * dd + 2)"
    and "j < nat (2 * dd + 1)"
  shows "trans_cell dd (fill_jump q r (offset s) (length jmp) (i8 (dd + 1)) jmp) (arr s) j
           = Inr (spec_cell q dd s r j)"
proof -
  define a where "a = arr s ! j"
  define k where "k = j + nat a"
  define p where "p = offset s + int j + a"
  define jv where "jv = (case scan q r p (nat (3 * dd + 2) - k) of
                           Some h \<Rightarrow> int h
                         | None \<Rightarrow> 4 * dd + 2 - int k)"
  define tab where "tab = fill_jump q r (offset s) (length jmp) (i8 (dd + 1)) jmp"
  note ok = state_okD [OF assms(3)]
  have len: "length (arr s) = nat (2 * dd + 1)" by (rule ok(1))
  have a: "0 \<le> a" "a \<le> dd + 1" using ok(2) [of j] assms(5) len by (simp_all add: a_def)
  have j: "int j \<le> 2 * dd" using assms by linarith
  have k: "int k = int j + a" "k < nat (3 * dd + 2)" using a j by (auto simp: k_def)
  have pk: "offset s + int k = p" by (simp add: k p_def)
  have tab: "tab ! k = jv"
    unfolding tab_def jv_def pk [symmetric] using assms k(2) by (intro jump_cell) auto
  note hc = horizontal_capped [OF assms(1) a j, of q r p, folded k_def, folded jv_def]
  have cr: "i8 (a + jv) = a + jv"
    using hc(2,3) a assms by (intro i8_id) auto
  have v0: "i8 (dd + 1) = dd + 1" using assms by (intro i8_id) auto
  have up: "i8 (arr s ! i + 1) = arr s ! i + 1" if "i < length (arr s)" for i
    using ok(2) [OF that] assms by (intro i8_id) auto
  have idx: "\<not> length (arr s) \<le> j" "\<not> (int j + a < 0 \<or> int (length tab) \<le> int j + a)"
    "nat (int j + a) = k"
    using assms a k by (auto simp: len tab_def)
  have g1: "(int j < int (length (arr s)) - 1) = (int j < 2 * dd)"
    and g2: "(int j < int (length (arr s)) - 2) = (int j < 2 * dd - 1)"
    using assms by (auto simp: len)
  have i1: "int j < 2 * dd \<Longrightarrow> j + 1 < length (arr s)"
    and i2: "int j < 2 * dd - 1 \<Longrightarrow> j + 2 < length (arr s)"
    using assms by (auto simp: len)
  have code: "trans_cell dd tab (arr s) j =
      Inr (let val1 = min (dd + 1) (a + jv);
               val2 = (if int j < 2 * dd then min val1 (arr s ! (j + 1) + 1) else val1);
               val3 = (if int j < 2 * dd - 1 then min val2 (arr s ! (j + 2) + 1) else val2)
           in val3)"
    unfolding trans_cell_def a_def [symmetric]
    using idx i1 i2 up [of "j + 1"] up [of "j + 2"]
    by (simp add: Let_def tab cr v0 g1 g2 min_def)
  have spec: "spec_cell q dd s r j =
      (let val1 = min (dd + 1) (a + next_dist q r p (dd + 1));
           val2 = (if int j < 2 * dd then min val1 (arr s ! (j + 1) + 1) else val1);
           val3 = (if int j < 2 * dd - 1 then min val2 (arr s ! (j + 2) + 1) else val2)
       in val3)"
    unfolding spec_cell_def a_def [symmetric] p_def [symmetric]
    by (auto simp: Let_def min_def)
  show ?thesis
    unfolding tab_def [symmetric] code spec hc(1) ..
qed

subsection \<open>The second loop\<close>

lemma trans_loop_cells:
  assumes "\<And>j. j \<in> set js \<Longrightarrow> trans_cell dd jmp sarr j = Inr (c j)"
  shows "trans_loop dd jmp sarr js a m =
     Inr (foldl (\<lambda>a j. if c j < i8 (dd + 1) then a[j := c j] else a) a js,
          foldl (\<lambda>m j. if c j < m then c j else m) m js)"
  using assms by (induction js arbitrary: a m) simp_all

lemma foldl_cells:
  fixes v :: int
  assumes "n \<le> len" and "\<And>j. j < n \<Longrightarrow> c j \<le> v"
  shows "foldl (\<lambda>a j. if c j < v then a[j := c j] else a) (replicate len v) [0..<n]
           = map c [0..<n] @ replicate (len - n) v"
  using assms
proof (induction n)
  case 0
  then show ?case by simp
next
  case (Suc n)
  have rest: "replicate (len - n) v = v # replicate (len - Suc n) v"
    using Suc.prems(1) by (cases "len - n") (simp_all add: Suc_diff_Suc)
  have cn: "c n \<le> v" using Suc.prems(2) by simp
  have "foldl (\<lambda>a j. if c j < v then a[j := c j] else a) (replicate len v) [0..<Suc n]
          = (let a = map c [0..<n] @ replicate (len - n) v
             in if c n < v then a[n := c n] else a)"
    using Suc by (simp add: Let_def)
  also have "\<dots> = map c [0..<n] @ c n # replicate (len - Suc n) v"
    using cn by (auto simp: Let_def rest list_update_append)
  finally show ?case by simp
qed

lemma Min_insert_min:
  fixes a b :: int
  assumes "finite S"
  shows "Min (insert (min a b) S) = Min (insert a (insert b S))"
  using assms by (cases "S = {}") (simp_all add: min.assoc)

lemma foldl_least:
  "foldl (\<lambda>m j. if c j < m then c j else m) (m::int) js = Min (insert m (c ` set js))"
proof (induction js arbitrary: m)
  case Nil
  then show ?case by simp
next
  case (Cons j js)
  have "foldl (\<lambda>m j. if c j < m then c j else m) m (j # js)
          = foldl (\<lambda>m j. if c j < m then c j else m) (min m (c j)) js"
    by (simp add: min_def)
  also have "\<dots> = Min (insert (min m (c j)) (c ` set js))" by (rule Cons.IH)
  also have "\<dots> = Min (insert m (insert (c j) (c ` set js)))"
    by (rule Min_insert_min) simp
  finally show ?case by simp
qed

lemma spec_min_Min:
  assumes "list_all (\<lambda>x. x \<le> dd + 1) a"
  shows "spec_min dd a = Min (insert (dd + 1) (set a))"
proof (cases "filter (\<lambda>x. x < dd + 1) a = []")
  case True
  have "x = dd + 1" if "x \<in> set a" for x
  proof -
    from True that have "\<not> x < dd + 1" by (auto simp: filter_empty_conv)
    moreover from assms that have "x \<le> dd + 1" by (auto simp: list_all_iff)
    ultimately show ?thesis by linarith
  qed
  then have "insert (dd + 1) (set a) = {dd + 1}" by auto
  then have "Min (insert (dd + 1) (set a)) = dd + 1" by (simp only: Min_singleton)
  moreover have "spec_min dd a = dd + 1" using True by (simp add: spec_min_def)
  ultimately show ?thesis by simp
next
  case False
  define act where "act = filter (\<lambda>x. x < dd + 1) a"
  have "act \<noteq> []" using False by (simp add: act_def)
  then have ne: "set act \<noteq> {}" by simp
  have "Min (set act) \<in> set act" using ne by (intro Min_in) auto
  then have small: "Min (set act) < dd + 1" by (simp add: act_def)
  have sm: "spec_min dd a = Min (set act)"
    unfolding spec_min_def Let_def act_def by (simp only: False if_False)
  have "insert (dd + 1) (set a) = insert (dd + 1) (set act)"
    using assms by (auto simp: act_def list_all_iff)
  then have "Min (insert (dd + 1) (set a)) = Min (insert (dd + 1) (set act))" by (rule arg_cong)
  also have "\<dots> = min (dd + 1) (Min (set act))" using ne by simp
  also have "\<dots> = Min (set act)" using small by simp
  finally show ?thesis unfolding sm by (rule sym)
qed

lemma spec_cell_range:
  assumes "0 \<le> dd" and "state_ok dd s" and "j < nat (2 * dd + 1)"
  shows "0 \<le> spec_cell q dd s r j" and "spec_cell q dd s r j \<le> dd + 1"
proof -
  note ok = state_okD [OF assms(2)]
  have a: "0 \<le> arr s ! j" using ok assms by simp
  have nd: "0 \<le> next_dist q r p (dd + 1)" for p
    using assms(1) by (simp add: next_dist_def split: option.splits)
  have i1: "int j < 2 * dd \<Longrightarrow> 0 \<le> arr s ! (j + 1)"
    and i2: "int j < 2 * dd - 1 \<Longrightarrow> 0 \<le> arr s ! (j + 2)"
    using ok(2) [of "j + 1"] ok(2) [of "j + 2"] ok(1) by auto
  from a nd [of "offset s + int j + arr s ! j"] i1 i2 assms(1)
  show "0 \<le> spec_cell q dd s r j"
    by (auto simp: spec_cell_def Let_def)
  obtain m where "spec_cell q dd s r j = (if dd + 1 \<le> m then dd + 1 else m)"
    unfolding spec_cell_def Let_def by blast
  then show "spec_cell q dd s r j \<le> dd + 1" by simp
qed

lemma newState_ok:
  assumes "0 \<le> dd" and "dd \<le> 31"
  shows "newState dd off = Inr (State off (replicate (nat (2 * dd + 1)) (dd + 1)))"
proof -
  have "i8 (2 * dd) = 2 * dd" using assms by (intro i8_id) auto
  moreover have "i8 (2 * dd + 1) = 2 * dd + 1" using assms by (intro i8_id) auto
  moreover have "i8 (dd + 1) = dd + 1" using assms by (intro i8_id) auto
  ultimately show ?thesis using assms by (simp add: newState_def)
qed

lemma transition_spec_transition:
  assumes "0 \<le> dd" and "dd \<le> 31" and "state_ok dd s" and "length jmp = nat (3 * dd + 2)"
  shows "transition (Nfa q dd jmp) s r = Inr (spec_transition q dd s r)"
proof -
  define len where "len = nat (2 * dd + 1)"
  define tab where "tab = fill_jump q r (offset s) (length jmp) (i8 (dd + 1)) jmp"
  define c where "c = spec_cell q dd s r"
  have v0: "i8 (dd + 1) = dd + 1" using assms by (intro i8_id) auto
  have cells: "trans_cell dd tab (arr s) j = Inr (c j)" if "j \<in> set [0..<len]" for j
    unfolding tab_def c_def using assms that by (intro trans_cell_spec) (auto simp: len_def)
  have le: "c j \<le> dd + 1" if "j < len" for j
    unfolding c_def using assms that by (intro spec_cell_range) (auto simp: len_def)
  have cs: "foldl (\<lambda>a j. if c j < dd + 1 then a[j := c j] else a) (replicate len (dd + 1)) [0..<len]
              = map c [0..<len]"
    using foldl_cells [of len len c "dd + 1"] le by simp
  have "trans_loop dd tab (arr s) [0..<len] (replicate len (dd + 1)) (dd + 1) =
      Inr (foldl (\<lambda>a j. if c j < i8 (dd + 1) then a[j := c j] else a)
             (replicate len (dd + 1)) [0..<len],
           foldl (\<lambda>m j. if c j < m then c j else m) (dd + 1) [0..<len])"
    by (rule trans_loop_cells [OF cells])
  then have loop: "trans_loop dd tab (arr s) [0..<len] (replicate len (dd + 1)) (dd + 1) =
      Inr (map c [0..<len], Min (insert (dd + 1) (c ` set [0..<len])))"
    by (simp only: v0 cs foldl_least)
  have "list_all (\<lambda>x. x \<le> dd + 1) (map c [0..<len])"
    using le by (simp add: list_all_iff)
  from spec_min_Min [OF this]
  have mn: "spec_min dd (map c [0..<len]) = Min (insert (dd + 1) (c ` set [0..<len]))"
    by simp
  have ns: "newState (nfa_d (Nfa q dd jmp)) (offset s + 1)
              = Inr (State (offset s + 1) (replicate len (dd + 1)))"
    by (simp add: newState_ok [OF assms(1,2)] len_def)
  have tl: "trans_loop dd (fill_jump q r (offset s) (length jmp) (i8 (dd + 1)) jmp)
              (arr s) [0..<len] (replicate len (dd + 1)) (i8 (dd + 1))
            = Inr (map c [0..<len], spec_min dd (map c [0..<len]))"
    using loop by (simp add: tab_def v0 mn)
  have sp: "spec_transition q dd s r
              = (State (offset s + 1) (map c [0..<len]), spec_min dd (map c [0..<len]))"
    by (simp add: spec_transition_def Let_def c_def len_def)
  show ?thesis
    unfolding transition_def ns sp by (simp add: tl Let_def)
qed

lemma newNfa_ok:
  "0 \<le> dd \<Longrightarrow> newNfa q dd = Inr (Nfa q dd (replicate (nat (3 * dd + 2)) 0))"
  by (simp add: newNfa_def)

text \<open>
  Up to \<open>d = 31\<close> no \<^verbatim>\<open>int8\<close> operation of \<^verbatim>\<open>transition\<close> wraps around: for the
  automaton built from \<open>(Q, d)\<close>, a state with \<open>2d + 1\<close> cells in \<open>[0, d + 1]\<close> and any
  scalar, \<^verbatim>\<open>transition\<close> returns the successor state and the minimum that the
  specification describes.
\<close>

theorem transition_computes_successor:
  assumes "0 \<le> dd" and "dd \<le> 31" and "newNfa q dd = Inr n"
    and "length (arr s) = nat (2 * dd + 1)" and "\<forall>x\<in>set (arr s). 0 \<le> x \<and> x \<le> dd + 1"
  shows "transition n s r = Inr (spec_transition q dd s r)"
proof -
  have n: "n = Nfa q dd (replicate (nat (3 * dd + 2)) 0)"
    using assms(1,3) by (simp add: newNfa_ok)
  have "state_ok dd s" using assms(4,5) by (simp add: state_ok_def list_all_iff)
  with assms(1,2) show ?thesis unfolding n by (intro transition_spec_transition) simp_all
qed

theorem transition_computes_successor_witness:
  "(0::int) \<le> 1 \<and> (1::int) \<le> 31 \<and> newNfa (extractRunes ''ab'') 1 = Inr (Nfa [97, 98] 1 [0, 0, 0, 0, 0])
   \<and> length (arr (State (- 2) [2, 2, 0])) = nat (2 * 1 + 1)
   \<and> list_all (\<lambda>x. 0 \<le> x \<and> x \<le> 1 + 1) (arr (State (- 2) [2, 2, 0]))
   \<and> transition (Nfa [97, 98] 1 [0, 0, 0, 0, 0]) (State (- 2) [2, 2, 0]) 98
       = Inr (State (- 1) [1, 1, 1], 1)"
proof -
  have n: "newNfa (extractRunes ''ab'') 1 = Inr (Nfa [97, 98] 1 [0, 0, 0, 0, 0])" by code_simp
  have l: "length (arr (State (- 2) [2, 2, 0])) = nat (2 * 1 + 1)" by simp
  have b: "\<forall>x\<in>set (arr (State (- 2) [2, 2, 0])). 0 \<le> x \<and> x \<le> 1 + 1" by simp
  have v: "spec_transition (extractRunes ''ab'') 1 (State (- 2) [2, 2, 0]) 98
             = (State (- 1) [1, 1, 1], 1)"
    by code_simp
  from transition_computes_successor [OF _ _ n l b, of 98] v n show ?thesis by simp
qed

text \<open>
  C4. For every automaton built from \<open>(Q, d)\<close>, every state with \<open>2d + 1\<close> cells in
  \<open>[0, d + 1]\<close> and every scalar, \<^verbatim>\<open>transition\<close> returns the successor state and the
  minimum that the specification describes. The code does not from \<open>d = 32\<close> on: the
  counter \<^verbatim>\<open>next\<close> of the jump table and the sum \<^verbatim>\<open>s.arr[j] + n.jump[...]\<close> are
  computed in \<^verbatim>\<open>int8\<close> and wrap around (\<^verbatim>\<open>newNfa\<close>, beside it, sizes the table with
  \<^verbatim>\<open>3*int(d)+2\<close>, in \<^verbatim>\<open>int\<close>). On the start state for \<open>d = 32\<close> and a scalar that
  the query does not hold, the horizontal contribution of diagonal \<open>0\<close> is
  \<open>4d + 2 = 130\<close>, which is \<open>- 126\<close> in \<^verbatim>\<open>int8\<close>; the code writes it to the cell and
  reports the minimum \<open>- 128\<close> (of diagonal \<open>2\<close>), where the specification has the sentinel
  \<open>33\<close> and the doc comment of \<^verbatim>\<open>transition\<close> the minimum edit distance among the
  states.
\<close>

theorem transition_wraps_at_32:
  "newNfa [] 32 = Inr (Nfa [] 32 (replicate 98 0))
   \<and> start (Nfa [] 32 (replicate 98 0)) = Inr (State (- 64) ((replicate 65 33)[64 := 0]))
   \<and> map_sum id (\<lambda>sm. (arr (fst sm) ! 0, snd sm))
        (transition (Nfa [] 32 (replicate 98 0)) (State (- 64) ((replicate 65 33)[64 := 0])) 0)
       = Inr (- 126, - 128)
   \<and> spec_cell [] 32 (State (- 64) ((replicate 65 33)[64 := 0])) 0 0 = 33"
  by code_simp

section \<open>The traversal with its strata\<close>

text \<open>
  The traversal once more, with every result tagged by the smallest cell of the automaton
  state of the frame that produced it. Nothing else differs from \<open>suggest_loop\<close> and
  \<open>suggest\<close>; erasing the tags gives their results back (\<open>suggest_loop_erase\<close>).
\<close>

definition state_min :: "state \<Rightarrow> int" where
  "state_min s = Min (set (arr s))"

function suggest_loop_strata ::
  "(node \<Rightarrow> int \<Rightarrow> KV list \<times> bool) \<Rightarrow> nfa \<Rightarrow> int \<Rightarrow> nat \<Rightarrow> frame list list \<Rightarrow> (int \<times> KV) list
     \<Rightarrow> error + (int \<times> KV) list" where
  "suggest_loop_strata process n limit i stacks results =
     (if length stacks \<le> i then Inr results
      else
        case stacks ! i of
          [] \<Rightarrow> suggest_loop_strata process n limit (Suc i) stacks results
        | f # rest \<Rightarrow>
            if accepts n (fstate f) then
              (let (res, halt) = process (fnode f) (limit - int (length results));
                   tagged = map (Pair (state_min (fstate f))) res in
               if limit \<le> int (length (results @ tagged)) then
                 (if limit < 0 then Inl SliceBoundsOutOfRange
                  else Inr (take (nat limit) (results @ tagged)))
               else if halt then
                 suggest_loop_strata process n limit i (stacks[i := rest]) (results @ tagged)
               else
                 (case push_children n (fstate f) (child (fnode f)) (stacks[i := rest]) of
                    Inl e \<Rightarrow> Inl e
                  | Inr stacks' \<Rightarrow>
                      suggest_loop_strata process n limit i stacks' (results @ tagged)))
            else
              (case push_children n (fstate f) (child (fnode f)) (stacks[i := rest]) of
                 Inl e \<Rightarrow> Inl e
               | Inr stacks' \<Rightarrow> suggest_loop_strata process n limit i stacks' results))"
  by pat_completeness auto
termination
proof (relation "measures [\<lambda>(process, n, limit, i, stacks, results). length stacks - i,
                           \<lambda>(process, n, limit, i, stacks, results). frames_size stacks]",
       goal_cases)
  case 1
  show ?case by simp
next
  case (2 process n limit i stacks results)
  then show ?case by simp
next
  case (3 process n limit i stacks results f rest x res halt tagged)
  then have "i < length stacks" by simp
  with 3 pop_frames_size [of i stacks f rest]
  have "frames_size (stacks[i := rest]) < frames_size stacks"
    by (cases "fnode f") (simp del: nsize.simps add: nsize.simps)
  then show ?case by simp
next
  case (4 process n limit i stacks results f rest x res halt tagged stacks')
  then have "i < length stacks" by simp
  with 4 pop_push_frames_size [of i stacks f rest n stacks'] show ?case by simp
next
  case (5 process n limit i stacks results f rest stacks')
  then have "i < length stacks" by simp
  with 5 pop_push_frames_size [of i stacks f rest n stacks'] show ?case by simp
qed

declare suggest_loop_strata.simps [simp del]

definition suggest_strata ::
  "(node \<Rightarrow> int \<Rightarrow> KV list \<times> bool) \<Rightarrow> node \<Rightarrow> rune list \<Rightarrow> int \<Rightarrow> int
     \<Rightarrow> error + (int \<times> KV) list" where
  "suggest_strata process root_node runes dd limit =
     (case newNfa runes dd of
        Inl e \<Rightarrow> Inl e
      | Inr n \<Rightarrow>
          (case start n of
             Inl e \<Rightarrow> Inl e
           | Inr st \<Rightarrow>
               let len = i8 (dd + 1) in
               if len < 0 then Inl MakeSliceLenOutOfRange
               else if len = 0 then Inl IndexOutOfRange
               else suggest_loop_strata process n limit 0
                      ((replicate (nat len) [])[0 := [Frame root_node st]]) []))"

definition untagged :: "error + (int \<times> KV) list \<Rightarrow> error + KV list" where
  "untagged r = (case r of Inl e \<Rightarrow> Inl e | Inr tagged \<Rightarrow> Inr (map snd tagged))"

lemma untagged_simps [simp]:
  "untagged (Inl e) = Inl e" "untagged (Inr tagged) = Inr (map snd tagged)"
  by (simp_all add: untagged_def)

lemma suggest_loop_erase:
  "suggest_loop process n limit i stacks (map snd results)
     = untagged (suggest_loop_strata process n limit i stacks results)"
proof (induction process n limit i stacks results rule: suggest_loop_strata.induct)
  case (1 process n limit i stacks results)
  have untag: "map snd (map (Pair t) res) = res" for t :: int and res :: "KV list"
    by (induction res) simp_all
  show ?case
  proof (cases "length stacks \<le> i")
    case True
    then show ?thesis
      by (subst suggest_loop.simps, subst suggest_loop_strata.simps) simp
  next
    case out: False
    show ?thesis
    proof (cases "stacks ! i")
      case Nil
      with out 1(1) show ?thesis
        by (subst suggest_loop.simps, subst suggest_loop_strata.simps) simp
    next
      case (Cons f rest)
      show ?thesis
      proof (cases "accepts n (fstate f)")
        case False
        with out Cons 1(4) show ?thesis
          by (subst suggest_loop.simps, subst suggest_loop_strata.simps)
             (simp split: sum.splits)
      next
        case True
        obtain res halt where p: "process (fnode f) (limit - int (length results)) = (res, halt)"
          by (cases "process (fnode f) (limit - int (length results))")
        define tagged where "tagged = map (Pair (state_min (fstate f))) res"
        have ut: "map snd tagged = res" unfolding tagged_def by (rule untag)
        have len: "length tagged = length res" by (simp add: tagged_def)
        have tk: "map snd (take k tagged) = take k res" for k
          unfolding ut [symmetric] take_map ..
        show ?thesis
        proof (cases "limit \<le> int (length (results @ tagged))")
          case True
          with out Cons \<open>accepts n (fstate f)\<close> p show ?thesis
            by (subst suggest_loop.simps, subst suggest_loop_strata.simps)
               (simp add: Let_def tagged_def [symmetric] len tk take_map)
        next
          case go: False
          show ?thesis
          proof (cases halt)
            case True
            from 1(2) [OF out Cons \<open>accepts n (fstate f)\<close> p [symmetric] refl tagged_def go True]
            have "suggest_loop process n limit i (stacks[i := rest]) (map snd results @ res)
                    = untagged
                        (suggest_loop_strata process n limit i (stacks[i := rest]) (results @ tagged))"
              by (simp add: ut)
            with out Cons \<open>accepts n (fstate f)\<close> p go True show ?thesis
              by (subst suggest_loop.simps, subst suggest_loop_strata.simps)
                 (simp add: Let_def tagged_def [symmetric] len)
          next
            case False
            have "suggest_loop process n limit i stacks' (map snd results @ res)
                    = untagged
                        (suggest_loop_strata process n limit i stacks' (results @ tagged))"
              if "push_children n (fstate f) (child (fnode f)) (stacks[i := rest]) = Inr stacks'"
              for stacks'
              using 1(3) [OF out Cons \<open>accepts n (fstate f)\<close> p [symmetric] refl tagged_def go False that]
              by (simp add: ut)
            with out Cons \<open>accepts n (fstate f)\<close> p go False show ?thesis
              by (subst suggest_loop.simps, subst suggest_loop_strata.simps)
                 (simp add: Let_def tagged_def [symmetric] len split: sum.splits)
          qed
        qed
      qed
    qed
  qed
qed

lemma suggest_erase:
  "suggest process root_node runes dd limit
     = untagged (suggest_strata process root_node runes dd limit)"
  using suggest_loop_erase [of process _ limit 0 _ "[]"]
  by (simp add: suggest_def suggest_strata_def Let_def split: sum.splits)

text \<open>
  A proof rule for the loop: an invariant \<open>Inv\<close> of the loop state (outer index, stacks,
  results) and a property \<open>Q\<close> of what the loop returns.
\<close>

lemma suggest_loop_strata_rule:
  assumes inv: "Inv i stacks results"
    and finish: "\<And>i stacks results. \<lbrakk>Inv i stacks results; length stacks \<le> i\<rbrakk> \<Longrightarrow> Q (Inr results)"
    and skip: "\<And>i stacks results.
        \<lbrakk>Inv i stacks results; i < length stacks; stacks ! i = []\<rbrakk> \<Longrightarrow> Inv (Suc i) stacks results"
    and full: "\<And>i stacks results f rest res halt.
        \<lbrakk>Inv i stacks results; i < length stacks; stacks ! i = f # rest; accepts n (fstate f);
         process (fnode f) (limit - int (length results)) = (res, halt);
         limit \<le> int (length (results @ map (Pair (state_min (fstate f))) res))\<rbrakk>
        \<Longrightarrow> Q (if limit < 0 then Inl SliceBoundsOutOfRange
               else Inr (take (nat limit) (results @ map (Pair (state_min (fstate f))) res)))"
    and halted: "\<And>i stacks results f rest res.
        \<lbrakk>Inv i stacks results; i < length stacks; stacks ! i = f # rest; accepts n (fstate f);
         process (fnode f) (limit - int (length results)) = (res, True);
         \<not> limit \<le> int (length (results @ map (Pair (state_min (fstate f))) res))\<rbrakk>
        \<Longrightarrow> Inv i (stacks[i := rest]) (results @ map (Pair (state_min (fstate f))) res)"
    and panic: "\<And>i stacks results f rest e.
        \<lbrakk>Inv i stacks results; i < length stacks; stacks ! i = f # rest;
         push_children n (fstate f) (child (fnode f)) (stacks[i := rest]) = Inl e\<rbrakk>
        \<Longrightarrow> Q (Inl e)"
    and emitted: "\<And>i stacks results f rest res stacks'.
        \<lbrakk>Inv i stacks results; i < length stacks; stacks ! i = f # rest; accepts n (fstate f);
         process (fnode f) (limit - int (length results)) = (res, False);
         \<not> limit \<le> int (length (results @ map (Pair (state_min (fstate f))) res));
         push_children n (fstate f) (child (fnode f)) (stacks[i := rest]) = Inr stacks'\<rbrakk>
        \<Longrightarrow> Inv i stacks' (results @ map (Pair (state_min (fstate f))) res)"
    and passed: "\<And>i stacks results f rest stacks'.
        \<lbrakk>Inv i stacks results; i < length stacks; stacks ! i = f # rest; \<not> accepts n (fstate f);
         push_children n (fstate f) (child (fnode f)) (stacks[i := rest]) = Inr stacks'\<rbrakk>
        \<Longrightarrow> Inv i stacks' results"
  shows "Q (suggest_loop_strata process n limit i stacks results)"
proof -
  have "Q (suggest_loop_strata p m l i stacks results)"
    if "p = process" and "m = n" and "l = limit" and "Inv i stacks results" for p m l
    using that
  proof (induction p m l i stacks results rule: suggest_loop_strata.induct)
  case (1 p m l i stacks results)
  note eq = "1.prems"(1-3) and Inv = "1.prems"(4)
  note IH1 = "1.IH"(1) [unfolded eq, OF _ _ refl refl refl]
  note IH2 = "1.IH"(2) [unfolded eq, OF _ _ _ _ _ _ _ _ refl refl refl]
  note IH3 = "1.IH"(3) [unfolded eq, OF _ _ _ _ _ _ _ _ _ refl refl refl]
  note IH4 = "1.IH"(4) [unfolded eq, OF _ _ _ _ refl refl refl]
  have "Q (suggest_loop_strata process n limit i stacks results)"
  proof (cases "length stacks \<le> i")
    case True
    with finish [OF Inv] show ?thesis
      by (subst suggest_loop_strata.simps) simp
  next
    case out: False
    then have i: "i < length stacks" by simp
    show ?thesis
    proof (cases "stacks ! i")
      case Nil
      from IH1 [OF out Nil skip [OF Inv i Nil]] out Nil show ?thesis
        by (subst suggest_loop_strata.simps) simp
    next
      case (Cons f rest)
      show ?thesis
      proof (cases "accepts n (fstate f)")
        case False
        show ?thesis
        proof (cases "push_children n (fstate f) (child (fnode f)) (stacks[i := rest])")
          case (Inl e)
          from panic [OF Inv i Cons Inl] out Cons False Inl show ?thesis
            by (subst suggest_loop_strata.simps) simp
        next
          case (Inr stacks')
          from IH4 [OF out Cons False Inr passed [OF Inv i Cons False Inr]]
            out Cons False Inr
          show ?thesis
            by (subst suggest_loop_strata.simps) simp
        qed
      next
        case True
        obtain res halt where p: "process (fnode f) (limit - int (length results)) = (res, halt)"
          by (cases "process (fnode f) (limit - int (length results))")
        define tagged where "tagged = map (Pair (state_min (fstate f))) res"
        show ?thesis
        proof (cases "limit \<le> int (length (results @ tagged))")
          case lim: True
          from full [OF Inv i Cons True p lim [unfolded tagged_def]] out Cons True p lim
          show ?thesis
            by (subst suggest_loop_strata.simps) (simp add: Let_def tagged_def)
        next
          case go: False
          show ?thesis
          proof (cases halt)
            case h: True
            from h p have p': "process (fnode f) (limit - int (length results)) = (res, True)"
              by simp
            from halted [OF Inv i Cons True p' go [unfolded tagged_def]]
            have "Inv i (stacks[i := rest]) (results @ tagged)" by (simp add: tagged_def)
            from IH2 [OF out Cons True p [symmetric] refl tagged_def go h this]
              out Cons True p go h
            show ?thesis
              by (subst suggest_loop_strata.simps) (simp add: Let_def tagged_def)
          next
            case h: False
            show ?thesis
            proof (cases "push_children n (fstate f) (child (fnode f)) (stacks[i := rest])")
              case (Inl e)
              from panic [OF Inv i Cons Inl] out Cons True p go h Inl show ?thesis
                by (subst suggest_loop_strata.simps) (simp add: Let_def tagged_def)
            next
              case (Inr stacks')
              from h p have p': "process (fnode f) (limit - int (length results)) = (res, False)"
                by simp
              from emitted [OF Inv i Cons True p' go [unfolded tagged_def] Inr]
              have "Inv i stacks' (results @ tagged)" by (simp add: tagged_def)
              from IH3 [OF out Cons True p [symmetric] refl tagged_def go h Inr this]
                out Cons True p go h Inr
              show ?thesis
                by (subst suggest_loop_strata.simps) (simp add: Let_def tagged_def)
            qed
          qed
        qed
      qed
    qed
  qed
  then show ?case unfolding eq .
qed
  then show ?thesis using inv by simp
qed
section \<open>The searches return\<close>

definition frames_ok :: "int \<Rightarrow> frame list list \<Rightarrow> bool" where
  "frames_ok dd stacks = list_all (list_all (\<lambda>f. state_ok dd (fstate f))) stacks"

lemma frames_ok_update:
  assumes "frames_ok dd stacks" and "list_all (\<lambda>f. state_ok dd (fstate f)) st"
  shows "frames_ok dd (stacks[i := st])"
  using assms unfolding frames_ok_def list_all_iff by (auto dest: set_update_subset_insert [THEN subsetD])

lemma frames_ok_nth:
  assumes "frames_ok dd stacks" and "i < length stacks"
  shows "list_all (\<lambda>f. state_ok dd (fstate f)) (stacks ! i)"
  using assms unfolding frames_ok_def list_all_iff by auto

lemma frames_ok_pop:
  assumes "frames_ok dd stacks" and "i < length stacks" and "stacks ! i = f # rest"
  shows "state_ok dd (fstate f)" and "frames_ok dd (stacks[i := rest])"
proof -
  from frames_ok_nth [OF assms(1,2)] assms(3)
  have f: "state_ok dd (fstate f)" and rest: "list_all (\<lambda>f. state_ok dd (fstate f)) rest"
    by simp_all
  show "state_ok dd (fstate f)" by (rule f)
  show "frames_ok dd (stacks[i := rest])" by (rule frames_ok_update [OF assms(1) rest])
qed

lemma start_ok:
  assumes "0 \<le> dd" and "dd \<le> 31"
  shows "start (Nfa q dd jmp)
           = Inr (State (- 2 * dd) ((replicate (nat (2 * dd + 1)) (dd + 1))[nat (2 * dd) := 0]))"
    and "state_ok dd (State (- 2 * dd) ((replicate (nat (2 * dd + 1)) (dd + 1))[nat (2 * dd) := 0]))"
proof -
  have w1: "i8 (- (2 * dd)) = - (2 * dd)" using assms by (intro i8_id) auto
  have w2: "i8 (2 * dd) = 2 * dd" using assms by (intro i8_id) auto
  show "start (Nfa q dd jmp)
          = Inr (State (- 2 * dd) ((replicate (nat (2 * dd + 1)) (dd + 1))[nat (2 * dd) := 0]))"
    using assms by (simp add: start_def w1 w2 newState_ok [OF assms] Let_def)
  show "state_ok dd (State (- 2 * dd) ((replicate (nat (2 * dd + 1)) (dd + 1))[nat (2 * dd) := 0]))"
    using assms by (auto simp: state_ok_def list_all_iff dest!: set_update_subset_insert [THEN subsetD])
qed

lemma spec_min_range:
  assumes "0 \<le> dd" and "list_all (\<lambda>x. 0 \<le> x \<and> x \<le> dd + 1) a"
  shows "0 \<le> spec_min dd a" and "spec_min dd a \<le> dd + 1"
proof -
  have "list_all (\<lambda>x. x \<le> dd + 1) a" using assms(2) by (simp add: list_all_iff)
  then have "spec_min dd a = Min (insert (dd + 1) (set a))" by (rule spec_min_Min)
  moreover have "Min (insert (dd + 1) (set a)) \<in> insert (dd + 1) (set a)"
    by (rule Min_in) simp_all
  ultimately have "spec_min dd a \<in> insert (dd + 1) (set a)" by simp
  with assms show "0 \<le> spec_min dd a" and "spec_min dd a \<le> dd + 1"
    by (auto simp: list_all_iff)
qed

lemma transition_ok:
  assumes "0 \<le> dd" and "dd \<le> 31" and "state_ok dd s" and "length jmp = nat (3 * dd + 2)"
  obtains ns mn where "transition (Nfa q dd jmp) s r = Inr (ns, mn)" and "state_ok dd ns"
    and "0 \<le> mn" and "mn \<le> dd + 1"
proof -
  define a where "a = map (spec_cell q dd s r) [0..<nat (2 * dd + 1)]"
  have cells: "list_all (\<lambda>x. 0 \<le> x \<and> x \<le> dd + 1) a"
    unfolding a_def list_all_iff using spec_cell_range [OF assms(1,3), of _ q r] by auto
  have "transition (Nfa q dd jmp) s r = Inr (State (offset s + 1) a, spec_min dd a)"
    using transition_spec_transition [OF assms, of q r]
    by (simp add: spec_transition_def Let_def a_def)
  moreover have "state_ok dd (State (offset s + 1) a)"
    using cells by (simp add: state_ok_def a_def)
  ultimately show thesis
    using spec_min_range [OF assms(1) cells] by (rule that)
qed

lemma push_children_ok:
  assumes "0 \<le> dd" and "dd \<le> 31" and "state_ok dd s" and "length jmp = nat (3 * dd + 2)"
    and "length stacks = nat (dd + 1)" and "frames_ok dd stacks"
  obtains stacks' where "push_children (Nfa q dd jmp) s cs stacks = Inr stacks'"
    and "length stacks' = nat (dd + 1)" and "frames_ok dd stacks'"
proof -
  have "\<exists>stacks'. push_children (Nfa q dd jmp) s cs stacks = Inr stacks'
          \<and> length stacks' = nat (dd + 1) \<and> frames_ok dd stacks'"
    using assms(5,6)
  proof (induction cs arbitrary: stacks)
    case Nil
    then show ?case by simp
  next
    case (Cons rc cs)
    obtain r c where rc: "rc = (r, c)" by (cases rc)
    obtain ns mn where t: "transition (Nfa q dd jmp) s r = Inr (ns, mn)" and ns: "state_ok dd ns"
      and mn: "0 \<le> mn" "mn \<le> dd + 1"
      by (rule transition_ok [OF assms(1-4)])
    have v0: "i8 (dd + 1) = dd + 1" using assms by (intro i8_id) auto
    show ?case
    proof (cases "mn < dd + 1")
      case True
      with mn Cons.prems have idx: "nat mn < length stacks" by simp
      have "list_all (\<lambda>f. state_ok dd (fstate f)) (Frame c ns # stacks ! nat mn)"
        using frames_ok_nth [OF Cons.prems(2) idx] ns by simp
      from frames_ok_update [OF Cons.prems(2) this]
      have "frames_ok dd (stacks[nat mn := Frame c ns # stacks ! nat mn])" .
      from Cons.IH [OF _ this] Cons.prems(1) True mn idx t show ?thesis
        by (simp add: rc v0)
    next
      case False
      with Cons.IH [OF Cons.prems] t show ?thesis by (simp add: rc v0)
    qed
  qed
  then show thesis using that by blast
qed

lemma suggest_strata_returns:
  assumes "0 \<le> dd" and "dd \<le> 31" and "0 \<le> limit"
  shows "\<exists>tagged. suggest_strata process start_node q dd limit = Inr tagged
           \<and> int (length tagged) \<le> limit"
proof -
  define n where "n = Nfa q dd (replicate (nat (3 * dd + 2)) 0)"
  define st where "st = State (- 2 * dd) ((replicate (nat (2 * dd + 1)) (dd + 1))[nat (2 * dd) := 0])"
  define stacks0 where "stacks0 = (replicate (nat (dd + 1)) [])[0 := [Frame start_node st]]"
  define Inv where "Inv = (\<lambda>(i::nat) stacks (results :: (int \<times> KV) list).
      length stacks = nat (dd + 1) \<and> frames_ok dd stacks \<and> int (length results) \<le> limit)"
  define Q where "Q = (\<lambda>r :: error + (int \<times> KV) list.
      \<exists>tagged. r = Inr tagged \<and> int (length tagged) \<le> limit)"
  have jl: "length (replicate (nat (3 * dd + 2)) (0::int)) = nat (3 * dd + 2)" by simp
  have v0: "i8 (dd + 1) = dd + 1" using assms by (intro i8_id) auto
  have unfold: "suggest_strata process start_node q dd limit
                  = suggest_loop_strata process n limit 0 stacks0 []"
    using assms(1)
    by (simp add: suggest_strata_def newNfa_ok start_ok(1) [OF assms(1,2)] v0 n_def st_def
          stacks0_def Let_def)
  have "state_ok dd st" unfolding st_def by (rule start_ok(2) [OF assms(1,2)])
  then have "frames_ok dd stacks0"
    unfolding stacks0_def by (intro frames_ok_update) (simp_all add: frames_ok_def list_all_iff)
  then have inv0: "Inv 0 stacks0 []"
    using assms by (simp add: Inv_def stacks0_def)
  have "Q (suggest_loop_strata process n limit 0 stacks0 [])"
  proof (rule suggest_loop_strata_rule [where Inv = Inv, OF inv0])
    fix i stacks and results :: "(int \<times> KV) list"
    assume "Inv i stacks results" "length stacks \<le> i"
    then show "Q (Inr results)" by (simp add: Inv_def Q_def)
  next
    fix i stacks and results :: "(int \<times> KV) list"
    assume "Inv i stacks results" "i < length stacks" "stacks ! i = []"
    then show "Inv (Suc i) stacks results" by (simp add: Inv_def)
  next
    fix i stacks f rest res halt and results :: "(int \<times> KV) list"
    assume "limit \<le> int (length (results @ map (Pair (state_min (fstate f))) res))"
    with assms(3)
    show "Q (if limit < 0 then Inl SliceBoundsOutOfRange
             else Inr (take (nat limit) (results @ map (Pair (state_min (fstate f))) res)))"
      by (simp add: Q_def)
  next
    fix i stacks f rest res and results :: "(int \<times> KV) list"
    assume "Inv i stacks results" "i < length stacks" "stacks ! i = f # rest"
      "\<not> limit \<le> int (length (results @ map (Pair (state_min (fstate f))) res))"
    then show "Inv i (stacks[i := rest]) (results @ map (Pair (state_min (fstate f))) res)"
      using frames_ok_pop(2) [of dd stacks i f rest] by (simp add: Inv_def)
  next
    fix i stacks f rest e and results :: "(int \<times> KV) list"
    assume a: "Inv i stacks results" "i < length stacks" "stacks ! i = f # rest"
      "push_children n (fstate f) (child (fnode f)) (stacks[i := rest]) = Inl e"
    from a(1-3) frames_ok_pop [of dd stacks i f rest]
    have "state_ok dd (fstate f)" "frames_ok dd (stacks[i := rest])"
      "length (stacks[i := rest]) = nat (dd + 1)"
      by (simp_all add: Inv_def)
    from push_children_ok [OF assms(1,2) this(1) jl this(3,2), of q "child (fnode f)"] a(4)
    show "Q (Inl e)" by (auto simp: n_def)
  next
    fix i stacks f rest res stacks' and results :: "(int \<times> KV) list"
    assume a: "Inv i stacks results" "i < length stacks" "stacks ! i = f # rest"
      "\<not> limit \<le> int (length (results @ map (Pair (state_min (fstate f))) res))"
      "push_children n (fstate f) (child (fnode f)) (stacks[i := rest]) = Inr stacks'"
    from a(1-3) frames_ok_pop [of dd stacks i f rest]
    have "state_ok dd (fstate f)" "frames_ok dd (stacks[i := rest])"
      "length (stacks[i := rest]) = nat (dd + 1)"
      by (simp_all add: Inv_def)
    from push_children_ok [OF assms(1,2) this(1) jl this(3,2), of q "child (fnode f)"] a(4,5)
    show "Inv i stacks' (results @ map (Pair (state_min (fstate f))) res)"
      by (auto simp: n_def Inv_def)
  next
    fix i stacks f rest stacks' and results :: "(int \<times> KV) list"
    assume a: "Inv i stacks results" "i < length stacks" "stacks ! i = f # rest"
      "push_children n (fstate f) (child (fnode f)) (stacks[i := rest]) = Inr stacks'"
    from a(1-3) frames_ok_pop [of dd stacks i f rest]
    have "state_ok dd (fstate f)" "frames_ok dd (stacks[i := rest])"
      "length (stacks[i := rest]) = nat (dd + 1)"
      by (simp_all add: Inv_def)
    from push_children_ok [OF assms(1,2) this(1) jl this(3,2), of q "child (fnode f)"] a(1,4)
    show "Inv i stacks' results"
      by (auto simp: n_def Inv_def)
  qed
  then show ?thesis by (simp add: unfold Q_def)
qed

lemma suggest_returns:
  assumes "0 \<le> dd" and "dd \<le> 31" and "0 \<le> limit"
  shows "\<exists>res. suggest process start_node q dd limit = Inr res \<and> int (length res) \<le> limit"
  using suggest_strata_returns [OF assms, of process start_node q]
  by (auto simp: suggest_erase)

lemma exact_prefix_search_returns:
  assumes "0 \<le> dd" and "dd \<le> 31" and "0 \<le> limit" and "0 \<le> p"
    and "p \<le> int (length (extractRunes key))"
  shows "\<exists>res. exact_prefix_search process spare t key p dd limit = Inr res
           \<and> int (length res) \<le> limit"
proof -
  have "int (length (runes_backing (extractRunes key) spare)) \<ge> p"
    using assms(5) by (auto simp: runes_backing_def)
  then show ?thesis
    using assms suggest_returns [OF assms(1-3), of process]
    by (simp add: exact_prefix_search_def slice_to_def slice_from_def Let_def
          split: option.splits)
qed

text \<open>
  Up to \<open>d = 31\<close> nothing overflows: for a bound \<open>0 \<le> d \<le> 31\<close>, a limit \<open>\<ge> 0\<close> and, for
  the searches after an exact prefix, a prefix count within the scalars of the query, each
  of the four searches returns a sequence of at most \<open>limit\<close> entries; none panics.
\<close>

theorem searches_return:
  assumes "0 \<le> dd" and "dd \<le> 31" and "0 \<le> limit" and "0 \<le> p"
    and "p \<le> int (length (extractRunes key))"
  shows "(\<exists>res. Suggest t key dd limit = Inr res \<and> int (length res) \<le> limit)
       \<and> (\<exists>res. SuggestSuffixes t key dd limit = Inr res \<and> int (length res) \<le> limit)
       \<and> (\<exists>res. SuggestAfterExactPrefix spare t key p dd limit = Inr res
                 \<and> int (length res) \<le> limit)
       \<and> (\<exists>res. SuggestSuffixesAfterExactPrefix spare t key p dd limit = Inr res
                 \<and> int (length res) \<le> limit)"
  unfolding Suggest_def SuggestSuffixes_def SuggestAfterExactPrefix_def
    SuggestSuffixesAfterExactPrefix_def
  using suggest_returns [OF assms(1-3)] exact_prefix_search_returns [OF assms]
  by blast

theorem searches_return_witness:
  "(0::int) \<le> 2 \<and> (2::int) \<le> 31 \<and> (0::int) \<le> 1 \<and> (0::int) \<le> 1
   \<and> 1 \<le> int (length (extractRunes ''ab''))
   \<and> (\<exists>res. Suggest (Trie_Set (Trie_Set New ''a'' ''1'') ''abc'' ''2'') ''ab'' 2 1 = Inr res
             \<and> int (length res) \<le> 1)
   \<and> (\<exists>res. SuggestSuffixes (Trie_Set (Trie_Set New ''a'' ''1'') ''abc'' ''2'') ''ab'' 2 1 = Inr res
             \<and> int (length res) \<le> 1)
   \<and> (\<exists>res. SuggestAfterExactPrefix [] (Trie_Set (Trie_Set New ''a'' ''1'') ''abc'' ''2'') ''ab'' 1 2 1
               = Inr res \<and> int (length res) \<le> 1)
   \<and> (\<exists>res. SuggestSuffixesAfterExactPrefix [] (Trie_Set (Trie_Set New ''a'' ''1'') ''abc'' ''2'')
               ''ab'' 1 2 1 = Inr res \<and> int (length res) \<le> 1)"
proof -
  have p: "1 \<le> int (length (extractRunes ''ab''))" by code_simp
  from searches_return [of 2 1 1 "''ab''", OF _ _ _ _ p] p show ?thesis by simp
qed

section \<open>The order of the results\<close>

definition exact_prefix_search_strata ::
  "(node \<Rightarrow> int \<Rightarrow> KV list \<times> bool) \<Rightarrow> rune list \<Rightarrow> Trie \<Rightarrow> string \<Rightarrow> int \<Rightarrow> int \<Rightarrow> int
     \<Rightarrow> error + (int \<times> KV) list" where
  "exact_prefix_search_strata process spare t key p dd n =
     (let runes = extractRunes key in
      case slice_to runes spare p of
        Inl e \<Rightarrow> Inl e
      | Inr pre \<Rightarrow>
          (case walk (root t) pre of
             None \<Rightarrow> Inr []
           | Some cur \<Rightarrow>
               (case slice_from runes p of
                  Inl e \<Rightarrow> Inl e
                | Inr rest \<Rightarrow> suggest_strata process cur rest dd n)))"

definition in_stratum_order :: "error + (int \<times> KV) list \<Rightarrow> bool" where
  "in_stratum_order r = (case r of Inl e \<Rightarrow> True | Inr tagged \<Rightarrow> sorted (map fst tagged))"

lemma exact_prefix_search_erase:
  "exact_prefix_search process spare t key p dd n
     = untagged (exact_prefix_search_strata process spare t key p dd n)"
  by (simp add: exact_prefix_search_def exact_prefix_search_strata_def Let_def suggest_erase
        split: sum.splits option.splits)

subsection \<open>The minimum that \<^verbatim>\<open>transition\<close> reports\<close>

lemma trans_loop_Inr_cells:
  assumes "trans_loop dd jmp sarr js a m = Inr am" and "j \<in> set js"
  shows "\<exists>v. trans_cell dd jmp sarr j = Inr v"
  using assms
proof (induction js arbitrary: a m)
  case Nil
  then show ?case by simp
next
  case (Cons k js)
  then show ?case by (cases "trans_cell dd jmp sarr k") auto
qed

lemma foldl_cells_capped:
  fixes v :: int
  assumes "n \<le> len"
  shows "foldl (\<lambda>a j. if c j < v then a[j := c j] else a) (replicate len v) [0..<n]
           = map (\<lambda>j. min (c j) v) [0..<n] @ replicate (len - n) v"
proof -
  have "(\<lambda>a j. if c j < v then a[j := c j] else a)
          = (\<lambda>a j. if min (c j) v < v then a[j := min (c j) v] else a)"
    by (auto simp: fun_eq_iff min_def)
  then show ?thesis
    using foldl_cells [OF assms, of "\<lambda>j. min (c j) v" v] by simp
qed

lemma Min_capped:
  fixes v :: int
  assumes "finite S" and "S \<noteq> {}"
  shows "Min ((\<lambda>x. min x v) ` S) = Min (insert v S)"
proof -
  have "mono (\<lambda>x. min x v)" by (rule monoI) (simp add: min_def)
  from mono_Min_commute [OF this assms] have "min (Min S) v = Min ((\<lambda>x. min x v) ` S)" .
  moreover have "Min (insert v S) = min v (Min S)" using assms by simp
  ultimately show ?thesis by (simp add: min.commute)
qed

lemma transition_min:
  assumes "transition n s r = Inr (ns, mn)" and "mn < i8 (nfa_d n + 1)"
  shows "state_min ns = mn"
proof -
  define v where "v = i8 (nfa_d n + 1)"
  define len where "len = nat (i8 (i8 (2 * nfa_d n) + 1))"
  define tab where "tab = fill_jump (nfa_rs n) r (offset s) (length (nfa_jump n)) v (nfa_jump n)"
  define c where "c = (\<lambda>j. case trans_cell (nfa_d n) tab (arr s) j of Inr x \<Rightarrow> x | Inl e \<Rightarrow> 0)"
  from assms(1) have ns: "newState (nfa_d n) (offset s + 1) = Inr (State (offset s + 1) (replicate len v))"
    by (auto simp: transition_def newState_def Let_def v_def len_def split: sum.splits if_splits)
  with assms(1) obtain a where
    loop: "trans_loop (nfa_d n) tab (arr s) [0..<len] (replicate len v) v = Inr (a, mn)"
    and a: "ns = State (offset s + 1) a"
    by (auto simp: transition_def Let_def tab_def v_def split: sum.splits)
  have "trans_cell (nfa_d n) tab (arr s) j = Inr (c j)" if "j \<in> set [0..<len]" for j
    using trans_loop_Inr_cells [OF loop that] by (auto simp: c_def)
  from trans_loop_cells [of "[0..<len]" "nfa_d n" tab "arr s" c "replicate len v" v, OF this]
  have "Inr (a, mn) =
      Inr (foldl (\<lambda>a j. if c j < v then a[j := c j] else a) (replicate len v) [0..<len],
           foldl (\<lambda>m j. if c j < m then c j else m) v [0..<len])"
    unfolding loop v_def [symmetric] by simp
  then have a': "a = map (\<lambda>j. min (c j) v) [0..<len]"
    and mn: "mn = Min (insert v (c ` set [0..<len]))"
    using foldl_cells_capped [of len len c v] by (simp_all add: foldl_least)
  have "len \<noteq> 0"
  proof
    assume "len = 0"
    with mn have "mn = v" by simp
    with assms(2) show False by (simp add: v_def)
  qed
  then have ne: "c ` set [0..<len] \<noteq> {}" by simp
  have "set a = (\<lambda>x. min x v) ` (c ` set [0..<len])"
    unfolding a' by (simp add: image_image)
  then have "Min (set a) = Min (insert v (c ` set [0..<len]))"
    using Min_capped [OF _ ne, of v] by simp
  then show ?thesis by (simp add: state_min_def a mn)
qed

lemma start_min:
  assumes "start n = Inr st" and "0 < i8 (nfa_d n + 1)"
  shows "state_min st = 0"
proof -
  from assms(1) obtain len k where st: "st = State (i8 (- 2 * nfa_d n)) ((replicate len (i8 (nfa_d n + 1)))[k := 0])"
    and k: "k < len"
    by (auto simp: start_def newState_def Let_def split: sum.splits if_splits)
  have "set ((replicate len (i8 (nfa_d n + 1)))[k := 0]) \<subseteq> {0, i8 (nfa_d n + 1)}"
    using set_update_subset_insert [of "replicate len (i8 (nfa_d n + 1))" k 0] by auto
  moreover have "0 \<in> set ((replicate len (i8 (nfa_d n + 1)))[k := 0])"
    using k by (simp add: set_update_memI)
  ultimately have "Min (set ((replicate len (i8 (nfa_d n + 1)))[k := 0])) = 0"
    using assms(2) by (intro Min_eqI) auto
  then show ?thesis by (simp add: st state_min_def)
qed

subsection \<open>Every frame lies in the stack of its minimum\<close>

definition stratified :: "frame list list \<Rightarrow> bool" where
  "stratified stacks =
     list_all (\<lambda>k. list_all (\<lambda>f. state_min (fstate f) = int k) (stacks ! k)) [0..<length stacks]"

lemma stratified_nth:
  assumes "stratified stacks" and "k < length stacks" and "f \<in> set (stacks ! k)"
  shows "state_min (fstate f) = int k"
  using assms by (auto simp: stratified_def list_all_iff)

lemma stratified_update:
  assumes "stratified stacks" and "list_all (\<lambda>f. state_min (fstate f) = int i) st"
  shows "stratified (stacks[i := st])"
proof -
  have "state_min (fstate f) = int k" if "k < length stacks" "f \<in> set (stacks[i := st] ! k)"
    for k f
  proof (cases "k = i")
    case True
    with that assms(2) show ?thesis by (simp add: list_all_iff)
  next
    case False
    with that have "f \<in> set (stacks ! k)" by simp
    with stratified_nth [OF assms(1) that(1)] show ?thesis by simp
  qed
  then show ?thesis by (simp add: stratified_def list_all_iff)
qed

lemma stratified_pop:
  assumes "stratified stacks" and "i < length stacks" and "stacks ! i = f # rest"
  shows "state_min (fstate f) = int i" and "stratified (stacks[i := rest])"
proof -
  show "state_min (fstate f) = int i"
    using stratified_nth [OF assms(1,2), of f] assms(3) by simp
  have "list_all (\<lambda>f. state_min (fstate f) = int i) rest"
    using stratified_nth [OF assms(1,2)] assms(3) by (simp add: list_all_iff)
  then show "stratified (stacks[i := rest])" by (rule stratified_update [OF assms(1)])
qed

lemma push_children_stratified:
  assumes "push_children n s cs stacks = Inr stacks'" and "stratified stacks"
  shows "stratified stacks'"
  using assms
proof (induction cs arbitrary: stacks)
  case Nil
  then show ?case by simp
next
  case (Cons rc cs)
  obtain r c where rc: "rc = (r, c)" by (cases rc)
  from Cons.prems(1) obtain ns mn where t: "transition n s r = Inr (ns, mn)"
    by (auto simp: rc split: sum.splits)
  show ?case
  proof (cases "mn < i8 (nfa_d n + 1)")
    case True
    with Cons.prems(1) t have idx: "0 \<le> mn" "nat mn < length stacks"
      and rec: "push_children n s cs (stacks[nat mn := Frame c ns # stacks ! nat mn]) = Inr stacks'"
      by (auto simp: rc split: if_splits)
    have "state_min ns = int (nat mn)" using transition_min [OF t True] idx by simp
    then have "list_all (\<lambda>f. state_min (fstate f) = int (nat mn)) (Frame c ns # stacks ! nat mn)"
      using stratified_nth [OF Cons.prems(2) idx(2)] by (simp add: list_all_iff)
    from Cons.IH [OF rec stratified_update [OF Cons.prems(2) this]] show ?thesis .
  next
    case False
    with Cons.prems(1) t have "push_children n s cs stacks = Inr stacks'" by (simp add: rc)
    from Cons.IH [OF this Cons.prems(2)] show ?thesis .
  qed
qed

lemma sorted_append_stratum:
  fixes tags :: "int list"
  assumes "sorted tags" and "\<forall>x\<in>set tags. x \<le> i"
  shows "sorted (tags @ replicate k i)"
  using assms by (auto simp: sorted_append)

lemma suggest_strata_in_order: "in_stratum_order (suggest_strata process start_node q dd limit)"
proof (cases "suggest_strata process start_node q dd limit")
  case (Inl e)
  then show ?thesis by (simp add: in_stratum_order_def)
next
  case (Inr tagged)
  then obtain n st where n: "newNfa q dd = Inr n" and st: "start n = Inr st"
    and len: "0 < i8 (dd + 1)"
    and run: "suggest_loop_strata process n limit 0
                ((replicate (nat (i8 (dd + 1))) [])[0 := [Frame start_node st]]) [] = Inr tagged"
    by (auto simp: suggest_strata_def Let_def split: sum.splits if_splits)
  have d: "nfa_d n = dd" using n by (auto simp: newNfa_def Let_def split: if_splits)
  define stacks0 where "stacks0 = (replicate (nat (i8 (dd + 1))) [])[0 := [Frame start_node st]]"
  define Inv where "Inv = (\<lambda>(i::nat) stacks (results :: (int \<times> KV) list).
      stratified stacks \<and> sorted (map fst results) \<and> (\<forall>x\<in>set (map fst results). x \<le> int i))"
  have tags: "map fst (results @ map (Pair t) res) = map fst results @ replicate (length res) t"
    for results :: "(int \<times> KV) list" and t :: int and res :: "KV list"
    by (induction res rule: rev_induct) (simp_all add: replicate_append_same)
  have emit: "Inv i stacks' (results @ map (Pair (state_min (fstate f))) res)"
    if "Inv i stacks results" "i < length stacks" "stacks ! i = f # rest" "stratified stacks'"
    for i stacks stacks' results f rest res
  proof -
    from that(1) have "stratified stacks" by (simp add: Inv_def)
    from stratified_pop(1) [OF this that(2,3)] have "state_min (fstate f) = int i" .
    with that(1,4) show ?thesis
      unfolding Inv_def tags by (auto simp: sorted_append)
  qed
  have "stratified (replicate (nat (i8 (dd + 1))) [])"
    by (simp add: stratified_def list_all_iff)
  moreover have "list_all (\<lambda>f. state_min (fstate f) = int 0) [Frame start_node st]"
    using start_min [OF st] len by (simp add: d)
  ultimately have "stratified stacks0"
    unfolding stacks0_def by (rule stratified_update)
  then have inv0: "Inv 0 stacks0 []" by (simp add: Inv_def)
  have "in_stratum_order (suggest_loop_strata process n limit 0 stacks0 [])"
  proof (rule suggest_loop_strata_rule [where Inv = Inv, OF inv0])
    fix i stacks and results :: "(int \<times> KV) list"
    assume "Inv i stacks results"
    then show "in_stratum_order (Inr results)" by (simp add: Inv_def in_stratum_order_def)
  next
    fix i stacks and results :: "(int \<times> KV) list"
    assume "Inv i stacks results"
    then show "Inv (Suc i) stacks results" by (force simp: Inv_def)
  next
    fix i stacks f rest res halt and results :: "(int \<times> KV) list"
    assume a: "Inv i stacks results" "i < length stacks" "stacks ! i = f # rest"
    from emit [OF a stratified_pop(2) [OF _ a(2,3)]] a(1)
    have "sorted (map fst (results @ map (Pair (state_min (fstate f))) res))"
      by (simp add: Inv_def)
    then have "sorted (take k (map fst (results @ map (Pair (state_min (fstate f))) res)))" for k
      by (rule sorted_wrt_take)
    then show "in_stratum_order
        (if limit < 0 then Inl SliceBoundsOutOfRange
         else Inr (take (nat limit) (results @ map (Pair (state_min (fstate f))) res)))"
      by (simp add: in_stratum_order_def take_map)
  next
    fix i stacks f rest res and results :: "(int \<times> KV) list"
    assume a: "Inv i stacks results" "i < length stacks" "stacks ! i = f # rest"
    from emit [OF a stratified_pop(2) [OF _ a(2,3)]] a(1)
    show "Inv i (stacks[i := rest]) (results @ map (Pair (state_min (fstate f))) res)"
      by (simp add: Inv_def)
  next
    fix e
    show "in_stratum_order (Inl e)" by (simp add: in_stratum_order_def)
  next
    fix i stacks f rest res stacks' and results :: "(int \<times> KV) list"
    assume a: "Inv i stacks results" "i < length stacks" "stacks ! i = f # rest"
      and push: "push_children n (fstate f) (child (fnode f)) (stacks[i := rest]) = Inr stacks'"
    from a have "stratified (stacks[i := rest])"
      using stratified_pop(2) by (simp add: Inv_def)
    from emit [OF a push_children_stratified [OF push this]]
    show "Inv i stacks' (results @ map (Pair (state_min (fstate f))) res)" .
  next
    fix i stacks f rest stacks' and results :: "(int \<times> KV) list"
    assume a: "Inv i stacks results" "i < length stacks" "stacks ! i = f # rest"
      and push: "push_children n (fstate f) (child (fnode f)) (stacks[i := rest]) = Inr stacks'"
    from a have "stratified (stacks[i := rest])"
      using stratified_pop(2) by (simp add: Inv_def)
    from push_children_stratified [OF push this] a(1)
    show "Inv i stacks' results" by (simp add: Inv_def)
  qed
  with Inr run show ?thesis by (simp add: stacks0_def)
qed

lemma suggest_strata_sorted:
  "suggest_strata process start_node q dd limit = Inr tagged \<Longrightarrow> sorted (map fst tagged)"
  using suggest_strata_in_order [of process start_node q dd limit]
  by (simp add: in_stratum_order_def)

lemma exact_prefix_search_strata_in_order:
  "in_stratum_order (exact_prefix_search_strata process spare t key p dd n)"
  by (auto simp: exact_prefix_search_strata_def Let_def in_stratum_order_def
           split: sum.splits option.splits dest: suggest_strata_sorted)

text \<open>
  C3. The sequence returned by each of the four searches is in non-decreasing order of
  the stratum in which the entry was produced: the minimum of the automaton state (its
  smallest cell) of the frame that the traversal was visiting, which for the
  suffix-expanding searches is the frame of the accepted ancestor.
\<close>

theorem results_in_stratum_order:
  "Suggest t key dd n = untagged (suggest_strata doNotExpandSuffixes (root t) (extractRunes key) dd n)
   \<and> in_stratum_order (suggest_strata doNotExpandSuffixes (root t) (extractRunes key) dd n)
   \<and> SuggestSuffixes t key dd n
       = untagged (suggest_strata expandSuffixes (root t) (extractRunes key) dd n)
   \<and> in_stratum_order (suggest_strata expandSuffixes (root t) (extractRunes key) dd n)
   \<and> SuggestAfterExactPrefix spare t key p dd n
       = untagged (exact_prefix_search_strata doNotExpandSuffixes spare t key p dd n)
   \<and> in_stratum_order (exact_prefix_search_strata doNotExpandSuffixes spare t key p dd n)
   \<and> SuggestSuffixesAfterExactPrefix spare t key p dd n
       = untagged (exact_prefix_search_strata expandSuffixes spare t key p dd n)
   \<and> in_stratum_order (exact_prefix_search_strata expandSuffixes spare t key p dd n)"
  unfolding Suggest_def SuggestSuffixes_def SuggestAfterExactPrefix_def
    SuggestSuffixesAfterExactPrefix_def
  by (simp add: suggest_erase [symmetric] exact_prefix_search_erase [symmetric]
        suggest_strata_in_order exact_prefix_search_strata_in_order)

theorem results_in_stratum_order_witness:
  "suggest_strata doNotExpandSuffixes
     (root (Trie_Set (Trie_Set (Trie_Set New ''xxx'' ''1'') ''xxxxxx'' ''2'') ''xxzx'' ''3''))
     (extractRunes ''xxxxxx'') 3 10
     = Inr [(0, KV ''xxx'' ''1''), (0, KV ''xxxxxx'' ''2''), (1, KV ''xxzx'' ''3'')]
   \<and> Suggest (Trie_Set (Trie_Set (Trie_Set New ''xxx'' ''1'') ''xxxxxx'' ''2'') ''xxzx'' ''3'')
       ''xxxxxx'' 3 10
     = Inr [KV ''xxx'' ''1'', KV ''xxxxxx'' ''2'', KV ''xxzx'' ''3'']
   \<and> sorted (map fst [(0::int, KV ''xxx'' ''1''), (0, KV ''xxxxxx'' ''2''), (1, KV ''xxzx'' ''3'')])"
proof -
  have run: "suggest_strata doNotExpandSuffixes
     (root (Trie_Set (Trie_Set (Trie_Set New ''xxx'' ''1'') ''xxxxxx'' ''2'') ''xxzx'' ''3''))
     (extractRunes ''xxxxxx'') 3 10
     = Inr [(0, KV ''xxx'' ''1''), (0, KV ''xxxxxx'' ''2''), (1, KV ''xxzx'' ''3'')]"
    by code_simp
  from results_in_stratum_order
    [of "Trie_Set (Trie_Set (Trie_Set New ''xxx'' ''1'') ''xxxxxx'' ''2'') ''xxzx'' ''3''"
        "''xxxxxx''" 3 10]
  show ?thesis by (simp add: run in_stratum_order_def)
qed

section \<open>Edit distance and the automaton\<close>

subsection \<open>The recurrence of the distance at the ends of the sequences\<close>

lemma lev_Nil2 [simp]: "lev xs [] = length xs"
  by (cases xs) simp_all

lemma min_of_nine:
  fixes A B C D E F G H I d1 d2 :: nat
  shows "min (min (Suc (min (min (Suc A) (Suc B)) (C + d1))) (Suc (min (min (Suc D) (Suc E)) (F + d1))))
             (min (min (Suc G) (Suc H)) (I + d1) + d2)
       = min (min (Suc (min (min (Suc A) (Suc D)) (G + d2))) (Suc (min (min (Suc B) (Suc E)) (H + d2))))
             (min (min (Suc C) (Suc F)) (I + d2) + d1)"
proof -
  have s: "Suc (min a b) = min (Suc a) (Suc b)" for a b :: nat by simp
  have p: "min a b + c = min (a + c) (b + c)" for a b c :: nat by simp
  show ?thesis
    unfolding s p
    by (simp only: add_Suc add_Suc_right add.assoc add.commute add.left_commute
          min.assoc min.commute min.left_commute)
qed

lemma min_of_five:
  fixes A n d1 d2 :: nat
  shows "min (min (Suc (Suc (Suc n))) (Suc (min (min (Suc (Suc n)) (Suc A)) (n + d1)))) (Suc n + d2)
       = min (min (Suc (Suc (Suc n))) (Suc (min (min (Suc (Suc n)) (Suc A)) (n + d2)))) (Suc n + d1)"
proof -
  have s: "Suc (min a b) = min (Suc a) (Suc b)" for a b :: nat by simp
  show ?thesis
    unfolding s
    by (simp only: add_Suc add_Suc_right add.assoc add.commute add.left_commute
          min.assoc min.commute min.left_commute)
qed

lemma lev_snoc_single1:
  "lev [a] (ys @ [b]) =
     min (min (Suc (lev [] (ys @ [b]))) (Suc (lev [a] ys))) (lev [] ys + (if a = b then 0 else 1))"
proof (induction ys)
  case Nil
  then show ?case by simp
next
  case (Cons y ys)
  define n where "n = length ys"
  define A where "A = lev [a] ys"
  define d1 :: nat where "d1 = (if a = b then 0 else 1)"
  define d2 :: nat where "d2 = (if a = y then 0 else 1)"
  have IH: "lev [a] (ys @ [b]) = min (min (Suc (Suc n)) (Suc A)) (n + d1)"
    using Cons.IH by (simp add: n_def A_def d1_def)
  have "lev [a] ((y # ys) @ [b])
          = min (min (Suc (Suc (Suc n))) (Suc (lev [a] (ys @ [b])))) (Suc n + d2)"
    by (simp add: n_def d2_def)
  also have "\<dots> = min (min (Suc (Suc (Suc n))) (Suc (min (min (Suc (Suc n)) (Suc A)) (n + d1))))
                        (Suc n + d2)"
    unfolding IH ..
  also have "\<dots> = min (min (Suc (Suc (Suc n))) (Suc (min (min (Suc (Suc n)) (Suc A)) (n + d2))))
                        (Suc n + d1)"
    by (rule min_of_five)
  also have "\<dots> = min (min (Suc (lev [] ((y # ys) @ [b]))) (Suc (lev [a] (y # ys))))
                        (lev [] (y # ys) + (if a = b then 0 else 1))"
    by (simp add: n_def A_def d1_def d2_def)
  finally show ?case .
qed

lemma lev_snoc_single2:
  "lev (xs @ [a]) [b] =
     min (min (Suc (lev xs [b])) (Suc (lev (xs @ [a]) []))) (lev xs [] + (if a = b then 0 else 1))"
proof (induction xs)
  case Nil
  then show ?case by simp
next
  case (Cons x xs)
  define n where "n = length xs"
  define A where "A = lev xs [b]"
  define d1 :: nat where "d1 = (if a = b then 0 else 1)"
  define d2 :: nat where "d2 = (if x = b then 0 else 1)"
  have IH: "lev (xs @ [a]) [b] = min (min (Suc A) (Suc (Suc n))) (n + d1)"
    using Cons.IH by (simp add: n_def A_def d1_def)
  have "lev ((x # xs) @ [a]) [b]
          = min (min (Suc (lev (xs @ [a]) [b])) (Suc (Suc (Suc n)))) (Suc n + d2)"
    by (simp add: n_def d2_def)
  also have "\<dots> = min (min (Suc (Suc (Suc n))) (Suc (min (min (Suc (Suc n)) (Suc A)) (n + d1))))
                        (Suc n + d2)"
    unfolding IH by (simp only: min.commute)
  also have "\<dots> = min (min (Suc (Suc (Suc n))) (Suc (min (min (Suc (Suc n)) (Suc A)) (n + d2))))
                        (Suc n + d1)"
    by (rule min_of_five)
  also have "\<dots> = min (min (Suc (min (min (Suc A) (Suc (Suc n))) (n + d2))) (Suc (Suc (Suc n))))
                        (Suc n + d1)"
    by (simp only: min.commute)
  also have "\<dots> = min (min (Suc (lev (x # xs) [b])) (Suc (lev ((x # xs) @ [a]) [])))
                        (lev (x # xs) [] + (if a = b then 0 else 1))"
    by (simp add: n_def A_def d1_def d2_def)
  finally show ?case .
qed

lemma lev_snoc:
  "lev (xs @ [a]) (ys @ [b]) =
     min (min (Suc (lev xs (ys @ [b]))) (Suc (lev (xs @ [a]) ys))) (lev xs ys + (if a = b then 0 else 1))"
proof (induction xs ys rule: lev.induct)
  case (1 ys)
  show ?case using lev_snoc_single1 [of a ys b] by simp
next
  case (2 x xs)
  show ?case using lev_snoc_single2 [of "x # xs" a b] by simp
next
  case (3 x xs y ys)
  define d1 :: nat where "d1 = (if a = b then 0 else 1)"
  define d2 :: nat where "d2 = (if x = y then 0 else 1)"
  note IH = "3.IH" [folded d1_def]
  have "lev ((x # xs) @ [a]) ((y # ys) @ [b]) =
          min (min (Suc (lev (xs @ [a]) ((y # ys) @ [b]))) (Suc (lev ((x # xs) @ [a]) (ys @ [b]))))
              (lev (xs @ [a]) (ys @ [b]) + d2)"
    by (simp add: d2_def)
  also have "\<dots> =
      min (min (Suc (min (min (Suc (lev xs ((y # ys) @ [b]))) (Suc (lev (xs @ [a]) (y # ys))))
                         (lev xs (y # ys) + d1)))
               (Suc (min (min (Suc (lev (x # xs) (ys @ [b]))) (Suc (lev ((x # xs) @ [a]) ys)))
                         (lev (x # xs) ys + d1))))
          (min (min (Suc (lev xs (ys @ [b]))) (Suc (lev (xs @ [a]) ys))) (lev xs ys + d1) + d2)"
    unfolding IH ..
  also have "\<dots> =
      min (min (Suc (min (min (Suc (lev xs ((y # ys) @ [b]))) (Suc (lev (x # xs) (ys @ [b]))))
                         (lev xs (ys @ [b]) + d2)))
               (Suc (min (min (Suc (lev (xs @ [a]) (y # ys))) (Suc (lev ((x # xs) @ [a]) ys)))
                         (lev (xs @ [a]) ys + d2))))
          (min (min (Suc (lev xs (y # ys))) (Suc (lev (x # xs) ys))) (lev xs ys + d2) + d1)"
    by (rule min_of_nine)
  also have "\<dots> =
      min (min (Suc (lev (x # xs) ((y # ys) @ [b]))) (Suc (lev ((x # xs) @ [a]) (y # ys))))
          (lev (x # xs) (y # ys) + d1)"
    by (simp add: d2_def)
  finally show ?case unfolding d1_def .
qed

lemma lev_snoc_Nil: "lev (xs @ [a]) [] = Suc (lev xs [])"
  by simp

text \<open>The distance is at least the difference of the lengths.\<close>

lemma lev_ge_length_diff: "length xs \<le> lev xs ys + length ys" "length ys \<le> lev xs ys + length xs"
  by (induction xs ys rule: lev.induct) auto

text \<open>
  A sequence within distance \<open>k\<close> of the query has every prefix within distance \<open>k\<close> of
  some prefix of the query.
\<close>

lemma lev_prefix:
  "\<exists>i\<le>length ys. lev u (take i ys) \<le> lev (u @ v) ys"
proof (induction v arbitrary: ys rule: rev_induct)
  case Nil
  show ?case by (rule exI [of _ "length ys"]) simp
next
  case (snoc c v)
  note shorter = snoc.IH
  show ?case
  proof (induction ys rule: rev_induct)
    case Nil
    show ?case by simp
  next
    case (snoc y ys)
    define L where "L = lev ((u @ v) @ [c]) (ys @ [y])"
    have rec: "L = min (min (Suc (lev (u @ v) (ys @ [y]))) (Suc (lev ((u @ v) @ [c]) ys)))
                       (lev (u @ v) ys + (if c = y then 0 else 1))"
      unfolding L_def by (rule lev_snoc)
    then consider "Suc (lev (u @ v) (ys @ [y])) \<le> L" | "Suc (lev ((u @ v) @ [c]) ys) \<le> L"
      | "lev (u @ v) ys \<le> L"
      by (cases "c = y") linarith+
    then have "\<exists>i\<le>length (ys @ [y]). lev u (take i (ys @ [y])) \<le> L"
    proof cases
      case 1
      from shorter [of "ys @ [y]"] obtain i where
        "i \<le> length (ys @ [y])" "lev u (take i (ys @ [y])) \<le> lev (u @ v) (ys @ [y])"
        by blast
      with 1 show ?thesis by (intro exI [of _ i]) simp
    next
      case 2
      from snoc.IH obtain i where "i \<le> length ys" "lev u (take i ys) \<le> lev (u @ v @ [c]) ys"
        by blast
      with 2 show ?thesis by (intro exI [of _ i]) simp
    next
      case 3
      from shorter [of ys] obtain i where "i \<le> length ys" "lev u (take i ys) \<le> lev (u @ v) ys"
        by blast
      with 3 show ?thesis by (intro exI [of _ i]) simp
    qed
    then show ?case by (simp add: L_def)
  qed
qed

subsection \<open>What a state of the automaton knows of the word read\<close>

text \<open>
  After the word \<open>w\<close> the cell of diagonal \<open>j\<close> holding \<open>e\<close> stands for the position
  \<open>offset + j + e\<close> of the query reached with \<open>e\<close> errors. The state covers \<open>w\<close> when,
  for every prefix of the query within distance \<open>d\<close> of \<open>w\<close>, the cell of the diagonal of
  that prefix holds at most that distance.
\<close>

definition covers :: "int \<Rightarrow> rune list \<Rightarrow> rune list \<Rightarrow> state \<Rightarrow> bool" where
  "covers dd q w s =
     (offset s = int (length w) - 2 * dd \<and>
      (\<forall>i\<le>length q. int (lev w (take i q)) \<le> dd \<longrightarrow>
         arr s ! nat (int i - int (lev w (take i q)) - offset s) \<le> int (lev w (take i q))))"

lemma coversD:
  assumes "covers dd q w s" and "i \<le> length q" and "int (lev w (take i q)) \<le> dd"
  shows "arr s ! nat (int i - int (lev w (take i q)) - (int (length w) - 2 * dd))
           \<le> int (lev w (take i q))"
  using assms unfolding covers_def by auto

lemma diagonal_range:
  assumes "i \<le> length q" and "int (lev w (take i q)) \<le> dd"
  shows "0 \<le> int i - int (lev w (take i q)) - (int (length w) - 2 * dd)"
    and "int i - int (lev w (take i q)) - (int (length w) - 2 * dd) \<le> 2 * dd"
proof -
  have "length (take i q) = i" using assms(1) by simp
  with lev_ge_length_diff(1) [where xs = w and ys = "take i q"]
    lev_ge_length_diff(2) [where xs = w and ys = "take i q"]
  have "length w \<le> lev w (take i q) + i" "i \<le> lev w (take i q) + length w" by simp_all
  with assms(2) show "0 \<le> int i - int (lev w (take i q)) - (int (length w) - 2 * dd)"
    and "int i - int (lev w (take i q)) - (int (length w) - 2 * dd) \<le> 2 * dd"
    by linarith+
qed

lemma next_dist_le:
  assumes "holds q r (p + int k)" and "int k \<le> dd"
  shows "next_dist q r p (dd + 1) \<le> int k"
proof (cases "scan q r p (nat (dd + 1))")
  case None
  with assms show ?thesis by (auto simp: scan_None)
next
  case (Some h)
  then have "\<forall>k'<h. \<not> holds q r (p + int k')" by (simp add: scan_Some)
  with assms(1) have "h \<le> k" by (meson not_le)
  with Some show ?thesis by (simp add: next_dist_def)
qed

lemma spec_cell_le:
  shows spec_cell_horizontal:
      "holds q r (offset s + int j + arr s ! j + int k) \<Longrightarrow> int k \<le> dd
         \<Longrightarrow> spec_cell q dd s r j \<le> arr s ! j + int k"
    and spec_cell_diagonal: "int j < 2 * dd \<Longrightarrow> spec_cell q dd s r j \<le> arr s ! (j + 1) + 1"
    and spec_cell_vertical: "int j < 2 * dd - 1 \<Longrightarrow> spec_cell q dd s r j \<le> arr s ! (j + 2) + 1"
proof -
  define horizontal where
    "horizontal = arr s ! j + next_dist q r (offset s + int j + arr s ! j) (dd + 1)"
  define diagonal where "diagonal = (if int j < 2 * dd then [arr s ! (j + 1) + 1] else [])"
  define vertical where "vertical = (if int j < 2 * dd - 1 then [arr s ! (j + 2) + 1] else [])"
  define m where "m = Min (set (horizontal # diagonal @ vertical))"
  have cell: "spec_cell q dd s r j = (if dd + 1 \<le> m then dd + 1 else m)"
    by (simp add: spec_cell_def Let_def m_def horizontal_def diagonal_def vertical_def)
  have le: "spec_cell q dd s r j \<le> x" if "x \<in> set (horizontal # diagonal @ vertical)" for x
  proof -
    from that have "m \<le> x" unfolding m_def by (intro Min_le) simp_all
    then show ?thesis by (simp add: cell)
  qed
  show "spec_cell q dd s r j \<le> arr s ! j + int k"
    if "holds q r (offset s + int j + arr s ! j + int k)" "int k \<le> dd"
  proof -
    have "spec_cell q dd s r j \<le> horizontal" by (rule le) simp
    with next_dist_le [OF that] show ?thesis by (simp add: horizontal_def)
  qed
  show "spec_cell q dd s r j \<le> arr s ! (j + 1) + 1" if "int j < 2 * dd"
    by (rule le) (simp add: diagonal_def that)
  show "spec_cell q dd s r j \<le> arr s ! (j + 2) + 1" if "int j < 2 * dd - 1"
    by (rule le) (simp add: vertical_def that)
qed

lemma covers_step:
  assumes "covers dd q w s" and "state_ok dd s"
  shows "covers dd q (w @ [c]) (fst (spec_transition q dd s c))"
proof -
  define off where "off = int (length w) - 2 * dd"
  have off: "offset s = off" using assms by (simp add: covers_def off_def)
  have main: "spec_cell q dd s c (nat (int i - int (lev (w @ [c]) (take i q)) - (off + 1)))
                \<le> int (lev (w @ [c]) (take i q))"
    if "i \<le> length q" "int (lev (w @ [c]) (take i q)) \<le> dd" for i
    using that
  proof (induction i)
    case 0
    define j where "j = nat (int 0 - int (lev (w @ [c]) (take 0 q)) - (off + 1))"
    from diagonal_range [of 0 q "w @ [c]" dd] 0
    have j: "int j = 2 * dd - 2 * int (length w) - 2" by (simp add: j_def off_def)
    from 0 have old: "int (lev w (take 0 q)) \<le> dd" by simp
    from coversD [OF assms(1) _ old]
    have "arr s ! nat (2 * dd - 2 * int (length w)) \<le> int (length w)"
      by (simp add: algebra_simps)
    moreover have "nat (2 * dd - 2 * int (length w)) = j + 2" using j by linarith
    ultimately have "arr s ! (j + 2) + 1 \<le> int (length w) + 1" by simp
    moreover have "spec_cell q dd s c j \<le> arr s ! (j + 2) + 1"
      using j by (intro spec_cell_vertical) linarith
    ultimately show ?case unfolding j_def [symmetric] by simp
  next
    case (Suc i)
    from Suc.prems have tk: "take (Suc i) q = take i q @ [q ! i]"
      by (simp add: take_Suc_conv_app_nth)
    define e where "e = lev (w @ [c]) (take (Suc i) q)"
    define j where "j = nat (int (Suc i) - int e - (off + 1))"
    from diagonal_range [of "Suc i" q "w @ [c]" dd] Suc.prems
    have j: "int j = int i - int e - off" "int j \<le> 2 * dd"
      by (simp_all add: j_def off_def e_def)
    have ed: "int e \<le> dd" using Suc.prems by (simp add: e_def)
    have rec: "e = min (min (Suc (lev w (take (Suc i) q))) (Suc (lev (w @ [c]) (take i q))))
                       (lev w (take i q) + (if c = q ! i then 0 else 1))"
      unfolding e_def tk by (rule lev_snoc)
    then consider (del) "e = Suc (lev w (take (Suc i) q))"
      | (ins) "e = Suc (lev (w @ [c]) (take i q))"
      | (sub) "e = Suc (lev w (take i q))"
      | (mat) "c = q ! i" "e = lev w (take i q)"
      by (cases "c = q ! i") (auto simp: min_def split: if_splits)
    then have "spec_cell q dd s c j \<le> int e"
    proof cases
      case del
      with ed have old: "int (lev w (take (Suc i) q)) \<le> dd" by simp
      from coversD [OF assms(1) Suc.prems(1) old] diagonal_range [OF Suc.prems(1) old]
      have "arr s ! nat (int (Suc i) - int (lev w (take (Suc i) q)) - off) \<le> int e - 1"
        and "int (Suc i) - int (lev w (take (Suc i) q)) - off \<le> 2 * dd"
        using del by (simp_all add: off_def)
      moreover have "nat (int (Suc i) - int (lev w (take (Suc i) q)) - off) = j + 2"
        and "int (Suc i) - int (lev w (take (Suc i) q)) - off = int j + 2"
        using j del by linarith+
      ultimately have "arr s ! (j + 2) + 1 \<le> int e" "int j < 2 * dd - 1" by simp_all
      with spec_cell_vertical [of j dd q s c] show ?thesis by linarith
    next
      case ins
      with ed have prev: "int (lev (w @ [c]) (take i q)) \<le> dd" by simp
      from Suc.prems have "i \<le> length q" by simp
      from Suc.IH [OF this prev]
      have "spec_cell q dd s c (nat (int i - int (lev (w @ [c]) (take i q)) - (off + 1)))
              \<le> int e - 1"
        using ins by simp
      moreover have "nat (int i - int (lev (w @ [c]) (take i q)) - (off + 1)) = j"
        using j ins by linarith
      ultimately show ?thesis by simp
    next
      case sub
      with ed have old: "int (lev w (take i q)) \<le> dd" by simp
      from Suc.prems have iq: "i \<le> length q" by simp
      from coversD [OF assms(1) iq old] diagonal_range [OF iq old]
      have "arr s ! nat (int i - int (lev w (take i q)) - off) \<le> int e - 1"
        and "int i - int (lev w (take i q)) - off \<le> 2 * dd"
        using sub by (simp_all add: off_def)
      moreover have "nat (int i - int (lev w (take i q)) - off) = j + 1"
        and "int i - int (lev w (take i q)) - off = int j + 1"
        using j sub by linarith+
      ultimately have "arr s ! (j + 1) + 1 \<le> int e" "int j < 2 * dd" by simp_all
      with spec_cell_diagonal [of j dd q s c] show ?thesis by linarith
    next
      case mat
      with ed have old: "int (lev w (take i q)) \<le> dd" by simp
      from Suc.prems have iq: "i \<le> length q" by simp
      have "nat (int i - int (lev w (take i q)) - off) = j"
        using j mat by linarith
      with coversD [OF assms(1) iq old] have cell: "arr s ! j \<le> int e"
        using mat by (simp add: off_def)
      have nonneg: "0 \<le> int e - arr s ! j" using cell by simp
      define k where "k = nat (int e - arr s ! j)"
      have k: "int k = int e - arr s ! j" using nonneg by (simp add: k_def)
      have "offset s + int j + arr s ! j + int k = int i" using j k off by simp
      moreover have "holds q c (int i)" using Suc.prems(1) mat(1) by (simp add: holds_def)
      ultimately have "holds q c (offset s + int j + arr s ! j + int k)" by simp
      moreover have "int k \<le> dd"
      proof -
        from j have "j < length (arr s)" using state_okD(1) [OF assms(2)] by linarith
        from state_okD(2) [OF assms(2) this] have "0 \<le> arr s ! j" by simp
        with k ed show ?thesis by simp
      qed
      ultimately have "spec_cell q dd s c j \<le> arr s ! j + int k"
        by (rule spec_cell_horizontal)
      then show ?thesis using k by simp
    qed
    then show ?case unfolding j_def e_def by simp
  qed
  show ?thesis
    unfolding covers_def
  proof (intro conjI allI impI)
    show "offset (fst (spec_transition q dd s c)) = int (length (w @ [c])) - 2 * dd"
      by (simp add: spec_transition_def Let_def off off_def)
  next
    fix i
    assume i: "i \<le> length q" "int (lev (w @ [c]) (take i q)) \<le> dd"
    define j where "j = nat (int i - int (lev (w @ [c]) (take i q)) - (off + 1))"
    from diagonal_range [OF i] have "j < nat (2 * dd + 1)" by (simp add: j_def off_def)
    then have "arr (fst (spec_transition q dd s c)) ! j = spec_cell q dd s c j"
      by (simp add: spec_transition_def Let_def)
    moreover have "offset (fst (spec_transition q dd s c)) = off + 1"
      by (simp add: spec_transition_def Let_def off)
    ultimately show "arr (fst (spec_transition q dd s c))
           ! nat (int i - int (lev (w @ [c]) (take i q)) - offset (fst (spec_transition q dd s c)))
          \<le> int (lev (w @ [c]) (take i q))"
      using main [OF i] by (simp add: j_def)
  qed
qed

subsection \<open>The start state, acceptance and the reported minimum\<close>

lemma covers_start:
  assumes "0 \<le> dd"
  shows "covers dd q [] (State (- 2 * dd) ((replicate (nat (2 * dd + 1)) (dd + 1))[nat (2 * dd) := 0]))"
proof -
  have "(replicate (nat (2 * dd + 1)) (dd + 1))[nat (2 * dd) := 0] ! nat (2 * dd) = 0"
    using assms by simp
  then show ?thesis by (simp add: covers_def)
qed

lemma covers_accepts:
  assumes "0 \<le> dd" and "dd \<le> 31" and "covers dd q w s" and "state_ok dd s"
    and "int (lev w q) \<le> dd"
  shows "accepts (Nfa q dd jmp) s"
proof -
  define e where "e = int (lev w q)"
  define j where "j = nat (int (length q) - e - (int (length w) - 2 * dd))"
  have tk: "take (length q) q = q" by simp
  from diagonal_range [of "length q" q w dd] assms(5)
  have rng: "0 \<le> int (length q) - e - (int (length w) - 2 * dd)"
    "int (length q) - e - (int (length w) - 2 * dd) \<le> 2 * dd"
    by (simp_all add: e_def)
  then have j: "int j = int (length q) - e - (int (length w) - 2 * dd)" "j < nat (2 * dd + 1)"
    by (simp_all add: j_def)
  from coversD [OF assms(3), of "length q"] assms(5) have cell: "arr s ! j \<le> e"
    by (simp add: j_def e_def)
  have off: "offset s = int (length w) - 2 * dd" using assms(3) by (simp add: covers_def)
  have "int (length q) - offset s - int j = e" using j(1) off by simp
  moreover have "i8 e = e" using assms(2,5) by (intro i8_id) (simp_all add: e_def)
  ultimately have dist: "i8 (int (length q) - offset s - int j) = e" by simp
  have "j \<in> set [0..<length (arr s)]" using j(2) state_okD(1) [OF assms(4)] by simp
  moreover have "(let dist = i8 (int (length (nfa_rs (Nfa q dd jmp))) - offset s - int j)
                  in dist \<le> nfa_d (Nfa q dd jmp) \<and> dist \<ge> arr s ! j)"
    using dist cell assms(5) by (simp add: e_def)
  ultimately show ?thesis unfolding accepts_def list_ex_iff by blast
qed

lemma spec_cell_ge_min:
  assumes "0 \<le> dd" and "state_ok dd s" and "j < nat (2 * dd + 1)"
  shows "state_min s \<le> spec_cell q dd s r j"
proof -
  note ok = state_okD [OF assms(2)]
  have fin: "finite (set (arr s))" by simp
  have low: "state_min s \<le> arr s ! k" if "k < nat (2 * dd + 1)" for k
    unfolding state_min_def using that ok(1) by (intro Min_le) simp_all
  have cap: "state_min s \<le> dd + 1"
    using low [OF assms(3)] ok(2) [of j] ok(1) assms(3) by simp
  have nd: "0 \<le> next_dist q r p (dd + 1)" for p
    using assms(1) by (simp add: next_dist_def split: option.splits)
  define horizontal where
    "horizontal = arr s ! j + next_dist q r (offset s + int j + arr s ! j) (dd + 1)"
  define diagonal where "diagonal = (if int j < 2 * dd then [arr s ! (j + 1) + 1] else [])"
  define vertical where "vertical = (if int j < 2 * dd - 1 then [arr s ! (j + 2) + 1] else [])"
  define m where "m = Min (set (horizontal # diagonal @ vertical))"
  have cell: "spec_cell q dd s r j = (if dd + 1 \<le> m then dd + 1 else m)"
    by (simp add: spec_cell_def Let_def m_def horizontal_def diagonal_def vertical_def)
  have "m \<in> set (horizontal # diagonal @ vertical)" unfolding m_def by (rule Min_in) simp_all
  moreover have "state_min s \<le> horizontal"
    using low [OF assms(3)] nd [of "offset s + int j + arr s ! j"] by (simp add: horizontal_def)
  moreover have "state_min s \<le> x" if "x \<in> set diagonal" for x
  proof -
    from that have x: "int j < 2 * dd" "x = arr s ! (j + 1) + 1"
      by (auto simp: diagonal_def split: if_splits)
    then have "j + 1 < nat (2 * dd + 1)" by linarith
    from low [OF this] x(2) show ?thesis by simp
  qed
  moreover have "state_min s \<le> x" if "x \<in> set vertical" for x
  proof -
    from that have x: "int j < 2 * dd - 1" "x = arr s ! (j + 2) + 1"
      by (auto simp: vertical_def split: if_splits)
    then have "j + 2 < nat (2 * dd + 1)" by linarith
    from low [OF this] x(2) show ?thesis by simp
  qed
  ultimately have "state_min s \<le> m" by auto
  with cap show ?thesis by (simp add: cell)
qed

lemma spec_transition_min_ge:
  assumes "0 \<le> dd" and "state_ok dd s"
  shows "state_min s \<le> snd (spec_transition q dd s r)"
proof -
  define a where "a = map (spec_cell q dd s r) [0..<nat (2 * dd + 1)]"
  have le: "list_all (\<lambda>x. x \<le> dd + 1) a"
    unfolding a_def list_all_iff using spec_cell_range(2) [OF assms, of _ q r] by auto
  have mn: "snd (spec_transition q dd s r) = Min (insert (dd + 1) (set a))"
    using spec_min_Min [OF le] by (simp add: spec_transition_def Let_def a_def)
  have "Min (insert (dd + 1) (set a)) \<in> insert (dd + 1) (set a)" by (rule Min_in) simp_all
  moreover have "state_min s \<le> dd + 1"
  proof -
    have "0 < nat (2 * dd + 1)" using assms(1) by simp
    from spec_cell_ge_min [OF assms this, of q r] spec_cell_range(2) [OF assms this, of q r]
    show ?thesis by simp
  qed
  moreover have "state_min s \<le> x" if "x \<in> set a" for x
    using that spec_cell_ge_min [OF assms, of _ q r] by (auto simp: a_def)
  ultimately show ?thesis unfolding mn by auto
qed

lemma covers_min_le:
  assumes "covers dd q w s" and "state_ok dd s" and "i \<le> length q"
    and "int (lev w (take i q)) \<le> dd"
  shows "spec_min dd (arr s) \<le> int (lev w (take i q))"
proof -
  define j where "j = nat (int i - int (lev w (take i q)) - (int (length w) - 2 * dd))"
  from diagonal_range [OF assms(3,4)] have "j < nat (2 * dd + 1)" by (simp add: j_def)
  then have mem: "arr s ! j \<in> set (arr s)" using state_okD(1) [OF assms(2)] by simp
  have le: "list_all (\<lambda>x. x \<le> dd + 1) (arr s)"
    using assms(2) by (simp add: state_ok_def list_all_iff)
  have "spec_min dd (arr s) = Min (insert (dd + 1) (set (arr s)))" by (rule spec_min_Min [OF le])
  also have "\<dots> \<le> arr s ! j" using mem by (intro Min_le) simp_all
  also have "\<dots> \<le> int (lev w (take i q))"
    using coversD [OF assms(1,3,4)] by (simp add: j_def)
  finally show ?thesis .
qed

text \<open>
  One edge of the trie under a covered frame: the transition returns, the successor covers
  the longer word, its minimum is not below that of the state left, and it is at most
  \<open>d\<close> when the longer word leads on to a word within distance \<open>d\<close> of the query.
\<close>

lemma transition_covers:
  assumes "0 \<le> dd" and "dd \<le> 31" and "state_ok dd s" and "length jmp = nat (3 * dd + 2)"
    and "covers dd q w s"
  shows "\<exists>ns mn. transition (Nfa q dd jmp) s c = Inr (ns, mn) \<and> state_ok dd ns
           \<and> covers dd q (w @ [c]) ns \<and> state_min s \<le> mn \<and> 0 \<le> mn
           \<and> (\<forall>v. int (lev (w @ [c] @ v) q) \<le> dd \<longrightarrow> mn \<le> dd)"
proof -
  define ns where "ns = fst (spec_transition q dd s c)"
  define mn where "mn = snd (spec_transition q dd s c)"
  have t: "transition (Nfa q dd jmp) s c = Inr (ns, mn)"
    using transition_spec_transition [OF assms(1-4), of q c] by (simp add: ns_def mn_def)
  have cells: "list_all (\<lambda>x. 0 \<le> x \<and> x \<le> dd + 1) (arr ns)"
    unfolding ns_def spec_transition_def Let_def list_all_iff
    using spec_cell_range [OF assms(1,3), of _ q c] by auto
  then have ok: "state_ok dd ns"
    by (simp add: state_ok_def ns_def spec_transition_def Let_def)
  have cov: "covers dd q (w @ [c]) ns" unfolding ns_def by (rule covers_step [OF assms(5,3)])
  have mn': "mn = spec_min dd (arr ns)"
    by (simp add: mn_def ns_def spec_transition_def Let_def)
  have ge: "state_min s \<le> mn" unfolding mn_def by (rule spec_transition_min_ge [OF assms(1,3)])
  have pos: "0 \<le> mn" unfolding mn' by (rule spec_min_range(1) [OF assms(1) cells])
  have near: "mn \<le> dd" if "int (lev (w @ [c] @ v) q) \<le> dd" for v
  proof -
    from lev_prefix [of q "w @ [c]" v] obtain i where i: "i \<le> length q"
      "lev (w @ [c]) (take i q) \<le> lev ((w @ [c]) @ v) q" by blast
    with that have "int (lev (w @ [c]) (take i q)) \<le> dd" by simp
    from covers_min_le [OF cov ok i(1) this] this show ?thesis unfolding mn' by simp
  qed
  from t ok cov ge pos near show ?thesis by blast
qed

subsection \<open>The entries below a node\<close>

text \<open>
  The stored entries of a subtree, in the order in which \<^verbatim>\<open>expandSuffixes\<close> meets them: the
  node first, then the subtrees of its children, the last child of the enumeration first.
\<close>

fun entries :: "node \<Rightarrow> KV list" where
  "entries (Node cs dt) =
     (case dt of Some kv \<Rightarrow> [kv] | None \<Rightarrow> []) @ concat (rev (map (\<lambda>kx. entries (snd kx)) cs))"

lemma entries_unfold:
  "entries x = (case data x of Some kv \<Rightarrow> [kv] | None \<Rightarrow> [])
                 @ concat (map entries (rev (map snd (child x))))"
  by (cases x) (simp add: rev_map comp_def)

lemma expand_loop_all:
  "int (length results + length (concat (map entries stack))) \<le> limit
     \<Longrightarrow> expand_loop stack results limit = results @ concat (map entries stack)"
proof (induction stack results limit rule: expand_loop.induct)
  case (1 results limit)
  then show ?case by simp
next
  case (2 x stack results limit)
  note ex = entries_unfold [of x]
  show ?case
  proof (cases "data x")
    case None
    from "2.prems"
    have "int (length results + length (concat (map entries (rev (map snd (child x)) @ stack))))
            \<le> limit"
      by (simp add: ex None)
    from "2.IH"(1) [OF None this] show ?thesis by (simp add: ex None)
  next
    case (Some kv)
    from "2.prems"
    have len: "int (length (results @ [kv])
                 + length (concat (map entries (rev (map snd (child x)) @ stack)))) \<le> limit"
      by (simp add: ex Some)
    show ?thesis
    proof (cases "limit \<le> int (length (results @ [kv]))")
      case True
      with len have "length (concat (map entries (rev (map snd (child x)) @ stack))) = 0"
        by linarith
      then have "concat (map entries (rev (map snd (child x)) @ stack)) = []"
        by (simp only: length_0_conv)
      then have "concat (map entries (x # stack)) = [kv]"
        by (simp add: ex Some)
      with True Some show ?thesis by simp
    next
      case False
      from "2.IH"(2) [OF Some False len] Some False show ?thesis by (simp add: ex)
    qed
  qed
qed

lemma expandSuffixes_all:
  assumes "int (length (entries x)) \<le> limit"
  shows "expandSuffixes x limit = (entries x, True)"
  using expand_loop_all [of "[]" "[x]" limit] assms by (simp add: expandSuffixes_def)

lemma lookup_entries: "lookup x path = Some kv \<Longrightarrow> kv \<in> set (entries x)"
proof (induction path arbitrary: x)
  case Nil
  then show ?case by (simp add: entries_unfold [of x])
next
  case (Cons r path)
  then obtain y where y: "map_of (child x) r = Some y" and below: "lookup y path = Some kv"
    by (auto simp: lookup_Cons split: option.splits)
  from y have "y \<in> set (map snd (child x))" by (force dest: map_of_SomeD)
  with Cons.IH [OF below] show ?case by (auto simp: entries_unfold [of x])
qed

lemma entries_children:
  "sum_list (map (\<lambda>kx. length (entries (snd kx))) (child x)) \<le> length (entries x)"
proof -
  have "length (concat (map entries (rev (map snd (child x)))))
          = sum_list (map (\<lambda>kx. length (entries (snd kx))) (child x))"
    by (simp add: length_concat rev_map [symmetric] sum_list_rev comp_def del: rev_map)
  then show ?thesis by (simp add: entries_unfold [of x])
qed

text \<open>The number of entries below the frames that wait on the stacks.\<close>

definition pending :: "frame list list \<Rightarrow> nat" where
  "pending stacks = sum_list (map (\<lambda>st. sum_list (map (\<lambda>f. length (entries (fnode f))) st)) stacks)"

lemma pending_update:
  "i < length stacks \<Longrightarrow>
   pending (stacks[i := st]) + sum_list (map (\<lambda>f. length (entries (fnode f))) (stacks ! i))
     = pending stacks + sum_list (map (\<lambda>f. length (entries (fnode f))) st)"
  unfolding pending_def
proof (induction stacks arbitrary: i)
  case Nil
  then show ?case by simp
next
  case (Cons a stacks)
  then show ?case by (cases i) auto
qed

lemma pending_pop:
  assumes "i < length stacks" and "stacks ! i = f # rest"
  shows "pending (stacks[i := rest]) + length (entries (fnode f)) = pending stacks"
  using pending_update [OF assms(1), of rest] assms(2) by simp

lemma pending_mem:
  assumes "k < length stacks" and "f \<in> set (stacks ! k)"
  shows "length (entries (fnode f)) \<le> pending stacks"
proof -
  have "length (entries (fnode f)) \<le> sum_list (map (\<lambda>f. length (entries (fnode f))) (stacks ! k))"
    using assms(2) by (intro member_le_sum_list) simp_all
  also have "\<dots> \<le> pending stacks"
    unfolding pending_def using assms(1) by (intro member_le_sum_list) simp_all
  finally show ?thesis .
qed

lemma push_children_pending:
  "push_children n s cs stacks = Inr stacks' \<Longrightarrow>
   pending stacks' \<le> pending stacks + sum_list (map (\<lambda>kx. length (entries (snd kx))) cs)"
proof (induction cs arbitrary: stacks)
  case Nil
  then show ?case by simp
next
  case (Cons a cs)
  obtain r c where a: "a = (r, c)" by (cases a)
  show ?case
  proof (cases "transition n s r")
    case (Inl e)
    with Cons.prems show ?thesis by (simp add: a)
  next
    case (Inr p)
    obtain ns mn where p: "p = (ns, mn)" by (cases p)
    show ?thesis
    proof (cases "mn < i8 (nfa_d n + 1)")
      case True
      with Cons.prems Inr p
      have rng: "0 \<le> mn" "mn < int (length stacks)"
        and rec: "push_children n s cs (stacks[nat mn := Frame c ns # stacks ! nat mn]) = Inr stacks'"
        by (auto simp: a split: if_splits)
      from rng have "nat mn < length stacks" by simp
      from pending_update [OF this, of "Frame c ns # stacks ! nat mn"]
      have "pending (stacks[nat mn := Frame c ns # stacks ! nat mn])
              = pending stacks + length (entries c)" by simp
      with Cons.IH [OF rec] show ?thesis by (simp add: a)
    next
      case False
      with Cons.prems Inr p have "push_children n s cs stacks = Inr stacks'"
        by (simp add: a)
      from Cons.IH [OF this] show ?thesis by (simp add: a)
    qed
  qed
qed

lemma push_children_keeps:
  "push_children n s cs stacks = Inr stacks' \<Longrightarrow> f \<in> set (stacks ! k) \<Longrightarrow> f \<in> set (stacks' ! k)"
proof (induction cs arbitrary: stacks)
  case Nil
  then show ?case by simp
next
  case (Cons a cs)
  obtain r c where a: "a = (r, c)" by (cases a)
  from Cons.prems(1) obtain ns mn where t: "transition n s r = Inr (ns, mn)"
    by (auto simp: a split: sum.splits)
  show ?case
  proof (cases "mn < i8 (nfa_d n + 1)")
    case True
    with Cons.prems(1) t
    have rng: "0 \<le> mn" "nat mn < length stacks"
      and rec: "push_children n s cs (stacks[nat mn := Frame c ns # stacks ! nat mn]) = Inr stacks'"
      by (auto simp: a split: if_splits)
    have "f \<in> set ((stacks[nat mn := Frame c ns # stacks ! nat mn]) ! k)"
      using Cons.prems(2) rng(2) by (cases "k = nat mn") simp_all
    from Cons.IH [OF rec this] show ?thesis .
  next
    case False
    with Cons.prems(1) t have "push_children n s cs stacks = Inr stacks'" by (simp add: a)
    from Cons.IH [OF this Cons.prems(2)] show ?thesis .
  qed
qed

lemma push_children_pushes:
  assumes "push_children n s cs stacks = Inr stacks'" and "(r, c) \<in> set cs"
    and "transition n s r = Inr (ns, mn)" and "mn < i8 (nfa_d n + 1)"
  shows "Frame c ns \<in> set (stacks' ! nat mn)"
  using assms(1,2)
proof (induction cs arbitrary: stacks)
  case Nil
  then show ?case by simp
next
  case (Cons a cs)
  obtain r' c' where a: "a = (r', c')" by (cases a)
  from Cons.prems(1) obtain ns' mn' where t: "transition n s r' = Inr (ns', mn')"
    by (auto simp: a split: sum.splits)
  have rec: "\<exists>stacks1. push_children n s cs stacks1 = Inr stacks'
      \<and> (a = (r, c) \<longrightarrow> Frame c ns \<in> set (stacks1 ! nat mn))"
  proof (cases "mn' < i8 (nfa_d n + 1)")
    case True
    with Cons.prems(1) t
    have rng: "0 \<le> mn'" "nat mn' < length stacks"
      and rec: "push_children n s cs (stacks[nat mn' := Frame c' ns' # stacks ! nat mn']) = Inr stacks'"
      by (auto simp: a split: if_splits)
    have "Frame c ns \<in> set ((stacks[nat mn' := Frame c' ns' # stacks ! nat mn']) ! nat mn)"
      if "a = (r, c)"
      using that t assms(3) rng(2) by (simp add: a)
    with rec show ?thesis by blast
  next
    case False
    with Cons.prems(1) t have "push_children n s cs stacks = Inr stacks'" by (simp add: a)
    moreover have "a \<noteq> (r, c)" using False t assms(3,4) by (auto simp: a)
    ultimately show ?thesis by blast
  qed
  then obtain stacks1 where rest: "push_children n s cs stacks1 = Inr stacks'"
    and here: "a = (r, c) \<Longrightarrow> Frame c ns \<in> set (stacks1 ! nat mn)" by blast
  show ?case
  proof (cases "a = (r, c)")
    case True
    from push_children_keeps [OF rest here [OF True]] show ?thesis .
  next
    case False
    with Cons.prems(2) have "(r, c) \<in> set cs" by simp
    from Cons.IH [OF rest this] show ?thesis .
  qed
qed

subsection \<open>Every entry with a prefix near the query is found\<close>

lemma suggest_strata_complete:
  assumes "0 \<le> dd" and "dd \<le> 31" and "int (length (entries start_node)) \<le> limit"
    and "lookup start_node w = Some kv" and "K \<le> length w" and "int (lev (take K w) q) \<le> dd"
  shows "\<exists>tagged. suggest_strata expandSuffixes start_node q dd limit = Inr tagged
           \<and> kv \<in> snd ` set tagged"
proof -
  define n where "n = Nfa q dd (replicate (nat (3 * dd + 2)) 0)"
  define st where "st = State (- 2 * dd) ((replicate (nat (2 * dd + 1)) (dd + 1))[nat (2 * dd) := 0])"
  define stacks0 where "stacks0 = (replicate (nat (dd + 1)) [])[0 := [Frame start_node st]]"
  define awaits where "awaits = (\<lambda>(i::nat) stacks.
      \<exists>k f m. i \<le> k \<and> k < length stacks \<and> f \<in> set (stacks ! k) \<and> m \<le> K
         \<and> covers dd q (take m w) (fstate f) \<and> lookup (fnode f) (drop m w) = Some kv)"
  define Inv where "Inv = (\<lambda>(i::nat) stacks (results :: (int \<times> KV) list).
      length stacks = nat (dd + 1) \<and> frames_ok dd stacks \<and> stratified stacks
      \<and> int (length results) + int (pending stacks) \<le> limit
      \<and> (kv \<in> snd ` set results \<or> awaits i stacks))"
  define Q where "Q = (\<lambda>r :: error + (int \<times> KV) list.
      \<exists>tagged. r = Inr tagged \<and> kv \<in> snd ` set tagged)"
  have jl: "length (replicate (nat (3 * dd + 2)) (0::int)) = nat (3 * dd + 2)" by simp
  have v0: "i8 (dd + 1) = dd + 1" using assms by (intro i8_id) auto
  have d: "nfa_d n = dd" by (simp add: n_def)
  have start: "start n = Inr st" unfolding n_def st_def by (rule start_ok(1) [OF assms(1,2)])
  have unfold: "suggest_strata expandSuffixes start_node q dd limit
                  = suggest_loop_strata expandSuffixes n limit 0 stacks0 []"
    using assms(1)
    by (simp add: suggest_strata_def newNfa_ok start [unfolded n_def] v0 n_def stacks0_def Let_def)
  have tagset: "snd ` set (results @ map (Pair t) res) = snd ` set results \<union> set res"
    for results :: "(int \<times> KV) list" and t :: int and res :: "KV list"
    by force
  text \<open>The frame on top of stack \<open>i\<close>.\<close>
  have popped: "state_ok dd (fstate f)" "frames_ok dd (stacks[i := rest])"
      "length (stacks[i := rest]) = nat (dd + 1)" "stratified (stacks[i := rest])"
      "state_min (fstate f) = int i"
      "pending (stacks[i := rest]) + length (entries (fnode f)) = pending stacks"
      "expandSuffixes (fnode f) (limit - int (length results)) = (entries (fnode f), True)"
    if "Inv i stacks results" "i < length stacks" "stacks ! i = f # rest"
    for i stacks results f rest
  proof -
    from that(1) have inv: "length stacks = nat (dd + 1)" "frames_ok dd stacks" "stratified stacks"
      "int (length results) + int (pending stacks) \<le> limit"
      by (simp_all add: Inv_def)
    show "state_ok dd (fstate f)" by (rule frames_ok_pop(1) [OF inv(2) that(2,3)])
    show "frames_ok dd (stacks[i := rest])" by (rule frames_ok_pop(2) [OF inv(2) that(2,3)])
    show "length (stacks[i := rest]) = nat (dd + 1)" using inv(1) by simp
    show "stratified (stacks[i := rest])" by (rule stratified_pop(2) [OF inv(3) that(2,3)])
    show "state_min (fstate f) = int i" by (rule stratified_pop(1) [OF inv(3) that(2,3)])
    show pop: "pending (stacks[i := rest]) + length (entries (fnode f)) = pending stacks"
      by (rule pending_pop [OF that(2,3)])
    from pop inv(4) have "int (length (entries (fnode f))) \<le> limit - int (length results)"
      by linarith
    then show "expandSuffixes (fnode f) (limit - int (length results)) = (entries (fnode f), True)"
      by (rule expandSuffixes_all)
  qed
  text \<open>The frame that leads to the entry is the one on top, or it stays where it is.\<close>
  have waits: "kv \<in> set (entries (fnode f))
      \<or> (\<exists>k g. i \<le> k \<and> k < length stacks \<and> g \<in> set ((stacks[i := rest]) ! k)
             \<and> kv \<in> set (entries (fnode g)))"
    if "awaits i stacks" "i < length stacks" "stacks ! i = f # rest" for i stacks f rest
  proof -
    from that(1) obtain k g m where g: "i \<le> k" "k < length stacks" "g \<in> set (stacks ! k)"
      "lookup (fnode g) (drop m w) = Some kv"
      unfolding awaits_def by blast
    from lookup_entries [OF g(4)] have kv: "kv \<in> set (entries (fnode g))" .
    show ?thesis
    proof (cases "k = i \<and> g = f")
      case True
      with kv show ?thesis by simp
    next
      case False
      with g(3) that(3) have "g \<in> set ((stacks[i := rest]) ! k)"
        using that(2) by (cases "k = i") auto
      with g(1,2) kv show ?thesis by blast
    qed
  qed
  have "state_ok dd st" unfolding st_def by (rule start_ok(2) [OF assms(1,2)])
  then have ok0: "frames_ok dd stacks0"
    unfolding stacks0_def by (intro frames_ok_update) (simp_all add: frames_ok_def list_all_iff)
  have "stratified (replicate (nat (dd + 1)) [])" by (simp add: stratified_def list_all_iff)
  moreover have "list_all (\<lambda>f. state_min (fstate f) = int 0) [Frame start_node st]"
    using start_min [OF start] assms(1) by (simp add: d v0)
  ultimately have str0: "stratified stacks0" unfolding stacks0_def by (rule stratified_update)
  have len0: "length stacks0 = nat (dd + 1)" by (simp add: stacks0_def)
  have pend0: "pending stacks0 = length (entries start_node)"
  proof -
    have "0 < length (replicate (nat (dd + 1)) ([] :: frame list))" using assms(1) by simp
    from pending_update [OF this, of "[Frame start_node st]"] assms(1)
    show ?thesis by (simp add: stacks0_def pending_def)
  qed
  have "covers dd q (take 0 w) st" unfolding st_def using covers_start [OF assms(1)] by simp
  then have "awaits 0 stacks0"
    unfolding awaits_def
    using assms(1,4) by (intro exI [of _ 0] exI [of _ "Frame start_node st"]) (simp add: stacks0_def)
  with len0 ok0 str0 pend0 assms(3) have inv0: "Inv 0 stacks0 []" by (simp add: Inv_def)
  have "Q (suggest_loop_strata expandSuffixes n limit 0 stacks0 [])"
  proof (rule suggest_loop_strata_rule [where Inv = Inv, OF inv0])
    fix i stacks and results :: "(int \<times> KV) list"
    assume "Inv i stacks results" "length stacks \<le> i"
    then show "Q (Inr results)" by (auto simp: Inv_def Q_def awaits_def)
  next
    fix i stacks and results :: "(int \<times> KV) list"
    assume a: "Inv i stacks results" "i < length stacks" "stacks ! i = []"
    have "awaits (Suc i) stacks" if "awaits i stacks"
    proof -
      from that obtain k f m where k: "i \<le> k" "k < length stacks" "f \<in> set (stacks ! k)" "m \<le> K"
        "covers dd q (take m w) (fstate f)" "lookup (fnode f) (drop m w) = Some kv"
        unfolding awaits_def by blast
      from k(3) a(3) have "k \<noteq> i" by auto
      with k(1) have "Suc i \<le> k" by simp
      with k show ?thesis unfolding awaits_def by blast
    qed
    with a(1) show "Inv (Suc i) stacks results" by (auto simp: Inv_def)
  next
    fix i stacks f rest res halt and results :: "(int \<times> KV) list"
    assume a: "Inv i stacks results" "i < length stacks" "stacks ! i = f # rest"
      and pr: "expandSuffixes (fnode f) (limit - int (length results)) = (res, halt)"
      and full: "limit \<le> int (length (results @ map (Pair (state_min (fstate f))) res))"
    note p = popped [OF a]
    from pr p(7) have res: "res = entries (fnode f)" by simp
    from a(1) have cnt: "int (length results) + int (pending stacks) \<le> limit"
      and found: "kv \<in> snd ` set results \<or> awaits i stacks"
      by (simp_all add: Inv_def)
    from cnt full p(6) have none: "pending (stacks[i := rest]) = 0"
      and lim: "limit = int (length (results @ map (Pair (state_min (fstate f))) res))"
      by (simp_all add: res)
    have "kv \<in> snd ` set (results @ map (Pair (state_min (fstate f))) res)"
    proof (cases "kv \<in> snd ` set results")
      case True
      then show ?thesis unfolding tagset by simp
    next
      case False
      with found have "awaits i stacks" by simp
      from waits [OF this a(2,3)] show ?thesis
      proof
        assume "kv \<in> set (entries (fnode f))"
        then show ?thesis unfolding tagset by (simp add: res)
      next
        assume "\<exists>k g. i \<le> k \<and> k < length stacks \<and> g \<in> set ((stacks[i := rest]) ! k)
             \<and> kv \<in> set (entries (fnode g))"
        then obtain k g where g: "k < length stacks" "g \<in> set ((stacks[i := rest]) ! k)"
          "kv \<in> set (entries (fnode g))" by blast
        from pending_mem [of k "stacks[i := rest]" g] g(1,2) none
        have "length (entries (fnode g)) = 0" by simp
        with g(3) show ?thesis by simp
      qed
    qed
    moreover have "0 \<le> limit" unfolding lim by simp
    moreover have "take (nat limit) (results @ map (Pair (state_min (fstate f))) res)
                     = results @ map (Pair (state_min (fstate f))) res"
      unfolding lim by simp
    ultimately show "Q (if limit < 0 then Inl SliceBoundsOutOfRange
             else Inr (take (nat limit) (results @ map (Pair (state_min (fstate f))) res)))"
      by (simp add: Q_def)
  next
    fix i stacks f rest res and results :: "(int \<times> KV) list"
    assume a: "Inv i stacks results" "i < length stacks" "stacks ! i = f # rest"
      and pr: "expandSuffixes (fnode f) (limit - int (length results)) = (res, True)"
    note p = popped [OF a]
    from pr p(7) have res: "res = entries (fnode f)" by simp
    from a(1) have cnt: "int (length results) + int (pending stacks) \<le> limit"
      and found: "kv \<in> snd ` set results \<or> awaits i stacks"
      by (simp_all add: Inv_def)
    have "kv \<in> snd ` set (results @ map (Pair (state_min (fstate f))) res)
        \<or> awaits i (stacks[i := rest])"
    proof (cases "kv \<in> snd ` set results")
      case True
      then show ?thesis unfolding tagset by simp
    next
      case False
      with found have aw: "awaits i stacks" by simp
      then obtain k g m where g: "i \<le> k" "k < length stacks" "g \<in> set (stacks ! k)" "m \<le> K"
        "covers dd q (take m w) (fstate g)" "lookup (fnode g) (drop m w) = Some kv"
        unfolding awaits_def by blast
      show ?thesis
      proof (cases "k = i \<and> g = f")
        case True
        with lookup_entries [OF g(6)] show ?thesis unfolding tagset by (simp add: res)
      next
        case False
        with g(3) a(3) have "g \<in> set ((stacks[i := rest]) ! k)"
          using a(2) by (cases "k = i") auto
        with g have "awaits i (stacks[i := rest])" unfolding awaits_def
          by (intro exI [of _ k] exI [of _ g] exI [of _ m]) simp
        then show ?thesis by simp
      qed
    qed
    with p cnt show "Inv i (stacks[i := rest]) (results @ map (Pair (state_min (fstate f))) res)"
      by (simp add: Inv_def res)
  next
    fix i stacks f rest e and results :: "(int \<times> KV) list"
    assume a: "Inv i stacks results" "i < length stacks" "stacks ! i = f # rest"
      and push: "push_children n (fstate f) (child (fnode f)) (stacks[i := rest]) = Inl e"
    note p = popped [OF a]
    from push_children_ok [OF assms(1,2) p(1) jl p(3,2), of q "child (fnode f)"] push
    show "Q (Inl e)" by (auto simp: n_def)
  next
    fix i stacks f rest res stacks' and results :: "(int \<times> KV) list"
    assume a: "Inv i stacks results" "i < length stacks" "stacks ! i = f # rest"
      and pr: "expandSuffixes (fnode f) (limit - int (length results)) = (res, False)"
    from pr show "Inv i stacks' (results @ map (Pair (state_min (fstate f))) res)"
      by (simp add: expandSuffixes_def)
  next
    fix i stacks f rest stacks' and results :: "(int \<times> KV) list"
    assume a: "Inv i stacks results" "i < length stacks" "stacks ! i = f # rest"
      and rej: "\<not> accepts n (fstate f)"
      and push: "push_children n (fstate f) (child (fnode f)) (stacks[i := rest]) = Inr stacks'"
    note p = popped [OF a]
    from a(1) have cnt: "int (length results) + int (pending stacks) \<le> limit"
      and found: "kv \<in> snd ` set results \<or> awaits i stacks"
      by (simp_all add: Inv_def)
    from push_children_ok [OF assms(1,2) p(1) jl p(3,2), of q "child (fnode f)"] push
    have shape: "length stacks' = nat (dd + 1)" "frames_ok dd stacks'" by (auto simp: n_def)
    have str: "stratified stacks'" by (rule push_children_stratified [OF push p(4)])
    from push_children_pending [OF push] entries_children [of "fnode f"] p(6)
    have "pending stacks' \<le> pending stacks" by linarith
    with cnt have cnt': "int (length results) + int (pending stacks') \<le> limit" by linarith
    have "awaits i stacks'" if aw: "awaits i stacks"
    proof -
      from aw obtain k g m where g: "i \<le> k" "k < length stacks" "g \<in> set (stacks ! k)" "m \<le> K"
        "covers dd q (take m w) (fstate g)" "lookup (fnode g) (drop m w) = Some kv"
        unfolding awaits_def by blast
      have same: "length stacks' = length stacks" using shape(1) a(1) by (simp add: Inv_def)
      show ?thesis
      proof (cases "k = i \<and> g = f")
        case False
        with g(3) a(3) have "g \<in> set ((stacks[i := rest]) ! k)"
          using a(2) by (cases "k = i") auto
        from push_children_keeps [OF push this] have "g \<in> set (stacks' ! k)" .
        with g same show ?thesis unfolding awaits_def
          by (intro exI [of _ k] exI [of _ g] exI [of _ m]) simp
      next
        case True
        then have gf: "g = f" "k = i" by simp_all
        have "m \<noteq> K"
        proof
          assume "m = K"
          with g(5) assms(6) covers_accepts [OF assms(1,2) _ p(1), of q "take K w"]
          have "accepts n (fstate f)" by (simp add: gf n_def)
          with rej show False by simp
        qed
        with g(4) assms(5) have m: "m < K" "m < length w" "Suc m \<le> K" by simp_all
        define c where "c = w ! m"
        have dr: "drop m w = c # drop (Suc m) w"
          unfolding c_def using m(2) by (simp add: Cons_nth_drop_Suc)
        have tk: "take (Suc m) w = take m w @ [c]"
          unfolding c_def using m(2) by (simp add: take_Suc_conv_app_nth)
        from g(6) obtain x where x: "map_of (child (fnode f)) c = Some x"
          and below: "lookup x (drop (Suc m) w) = Some kv"
          by (auto simp: dr gf lookup_Cons split: option.splits)
        from x have edge: "(c, x) \<in> set (child (fnode f))" by (rule map_of_SomeD)
        from g(5) have cov: "covers dd q (take m w) (fstate f)" by (simp add: gf)
        from transition_covers [OF assms(1,2) p(1) jl cov, of c]
        obtain ns mn where t: "transition (Nfa q dd (replicate (nat (3 * dd + 2)) 0)) (fstate f) c
              = Inr (ns, mn)"
          and ns: "covers dd q (take m w @ [c]) ns" and up: "state_min (fstate f) \<le> mn"
          and near: "\<And>v. int (lev (take m w @ [c] @ v) q) \<le> dd \<Longrightarrow> mn \<le> dd"
          by blast
        have "take K w = take (Suc m) w @ drop (Suc m) (take K w)"
          using m(3) by (metis append_take_drop_id min.absorb1 take_take)
        then have "take K w = take m w @ [c] @ drop (Suc m) (take K w)" by (simp add: tk)
        with assms(6) have "int (lev (take m w @ [c] @ drop (Suc m) (take K w)) q) \<le> dd" by simp
        from near [OF this] have mn: "mn \<le> dd" .
        then have "mn < i8 (nfa_d n + 1)" by (simp add: d v0)
        from push_children_pushes [OF push edge t [folded n_def] this]
        have here: "Frame x ns \<in> set (stacks' ! nat mn)" .
        from up p(5) have "i \<le> nat mn" by simp
        moreover from up p(5) mn assms(1) shape(1) have "nat mn < length stacks'" by simp
        ultimately show ?thesis
          unfolding awaits_def using here m(3) ns below
          by (intro exI [of _ "nat mn"] exI [of _ "Frame x ns"] exI [of _ "Suc m"]) (simp add: tk)
      qed
    qed
    with found shape str cnt' show "Inv i stacks' results" by (auto simp: Inv_def)
  qed
  then show ?thesis by (simp add: unfold Q_def)
qed

text \<open>
  Up to \<open>d = 31\<close> the suffix search is complete. When the limit is at least the number of
  entries of the trie, \<^verbatim>\<open>SuggestSuffixes\<close> returns every entry whose key has a prefix, over
  scalars, within distance \<open>d\<close> of the query: the entry stored under the key \<open>k\<close> (the one
  that \<^verbatim>\<open>Get\<close> reads) is returned whenever a string \<open>p\<close> decoding to the first \<open>j\<close> scalars of
  \<open>k\<close> is within distance \<open>d\<close> of the query.
\<close>

theorem suffix_search_complete:
  assumes "0 \<le> dd" and "dd \<le> 31" and "int (length (entries (root t))) \<le> limit"
    and "lookup (root t) (extractRunes k) = Some kv"
    and "extractRunes p = take j (extractRunes k)"
    and "int (editDistance p key) \<le> dd"
  shows "\<exists>res. SuggestSuffixes t key dd limit = Inr res \<and> kv \<in> set res
           \<and> Trie_Get t k = (Value kv, True)"
proof -
  define K where "K = min j (length (extractRunes k))"
  have tk: "take K (extractRunes k) = extractRunes p"
    by (simp add: K_def assms(5) min_def)
  have near: "int (lev (take K (extractRunes k)) (extractRunes key)) \<le> dd"
    using assms(6) by (simp add: tk editDistance_def)
  have "K \<le> length (extractRunes k)" by (simp add: K_def)
  from suggest_strata_complete [OF assms(1-4) this near]
  obtain tagged where run: "suggest_strata expandSuffixes (root t) (extractRunes key) dd limit
      = Inr tagged" and kv: "kv \<in> snd ` set tagged"
    by blast
  have "SuggestSuffixes t key dd limit = Inr (map snd tagged)"
    by (simp add: SuggestSuffixes_def suggest_erase run)
  moreover have "Trie_Get t k = (Value kv, True)"
    by (simp add: Trie_Get_lookup assms(4))
  ultimately show ?thesis using kv by simp
qed

theorem suffix_search_complete_witness:
  "SuggestSuffixes (Trie_Set (Trie_Set New ''ab'' ''1'') ''xy'' ''2'') ''a'' 0 2 = Inr [KV ''ab'' ''1'']
   \<and> (\<exists>res. SuggestSuffixes (Trie_Set (Trie_Set New ''ab'' ''1'') ''xy'' ''2'') ''a'' 0 2 = Inr res
          \<and> KV ''ab'' ''1'' \<in> set res
          \<and> Trie_Get (Trie_Set (Trie_Set New ''ab'' ''1'') ''xy'' ''2'') ''ab''
              = (Value (KV ''ab'' ''1''), True))"
proof -
  have n: "int (length (entries (root (Trie_Set (Trie_Set New ''ab'' ''1'') ''xy'' ''2'')))) \<le> 2"
    by code_simp
  have l: "lookup (root (Trie_Set (Trie_Set New ''ab'' ''1'') ''xy'' ''2'')) (extractRunes ''ab'')
             = Some (KV ''ab'' ''1'')"
    by code_simp
  have p: "extractRunes ''a'' = take 1 (extractRunes ''ab'')" by code_simp
  have e: "int (editDistance ''a'' ''a'') \<le> 0" by code_simp
  have r: "SuggestSuffixes (Trie_Set (Trie_Set New ''ab'' ''1'') ''xy'' ''2'') ''a'' 0 2
             = Inr [KV ''ab'' ''1'']"
    by code_simp
  from suffix_search_complete [OF _ _ n l p e] r show ?thesis by simp
qed

section \<open>The searches on a store\<close>

text \<open>
  The trie in memory. Every node is a cell of a store and a \<^verbatim>\<open>*node\<close> is the address of
  its cell; the cell holds the child map of the node (scalar to address) and its entry.
  The \<^verbatim>\<open>int8\<close> arrays that the automaton allocates with \<^verbatim>\<open>make\<close> and writes to through
  shared slices (\<^verbatim>\<open>n.jump\<close>, the \<^verbatim>\<open>arr\<close> of a state) are cells of the same store. The
  stacks and the result slice of a search are local to it and stay values.

  \<^verbatim>\<open>make\<close> puts the new array behind the cells there are. A write \<^verbatim>\<open>x[i] = v\<close> replaces
  the cell at the address of \<open>x\<close>, whatever that cell holds: that the searches leave the
  nodes alone has to come from where they write, not from the form of the write.
\<close>

type_synonym addr = nat

datatype cell = NodeCell (children: "(rune \<times> addr) list") (entry: "KV option") | ArrCell (ints: "int list")

type_synonym store = "cell list"

definition new_array :: "store \<Rightarrow> int list \<Rightarrow> store \<times> addr" where
  "new_array st xs = (st @ [ArrCell xs], length st)"

definition array_at :: "store \<Rightarrow> addr \<Rightarrow> int list" where
  "array_at st a =
     (if a < length st then (case st ! a of ArrCell xs \<Rightarrow> xs | NodeCell cs dt \<Rightarrow> []) else [])"

definition store_int :: "store \<Rightarrow> addr \<Rightarrow> nat \<Rightarrow> int \<Rightarrow> store" where
  "store_int st a i v = st[a := ArrCell ((array_at st a)[i := v])]"

definition node_at :: "store \<Rightarrow> addr \<Rightarrow> cell option" where
  "node_at st a =
     (if a < length st then (case st ! a of NodeCell cs dt \<Rightarrow> Some (NodeCell cs dt) | ArrCell xs \<Rightarrow> None)
      else None)"

definition children_at :: "store \<Rightarrow> addr \<Rightarrow> (rune \<times> addr) list" where
  "children_at st a = (case node_at st a of Some c \<Rightarrow> children c | None \<Rightarrow> [])"

text \<open>
  A value of type \<^verbatim>\<open>node\<close>, as \<^verbatim>\<open>*p\<close> copies it out of the store: the reference to the
  child map, which is the address of the cell that holds the map, and the entry. An
  address without a node stands for the nil pointer.
\<close>

datatype node_s = Node_s (child_s: addr) (data_s: "KV option")

definition deref :: "store \<Rightarrow> addr \<Rightarrow> error + node_s" where
  "deref st p = (case node_at st p of Some c \<Rightarrow> Inr (Node_s p (entry c)) | None \<Rightarrow> Inl NilDereference)"

subsection \<open>The automaton\<close>

datatype state_s = State_s (offset_s: int) (arr_s: addr)

datatype nfa_s = Nfa_s (rs_s: "rune list") (d_s: int) (jump_s: addr)

definition newState_s :: "store \<Rightarrow> int \<Rightarrow> int \<Rightarrow> store \<times> (error + state_s)" where
  "newState_s st dd off =
     (let len = i8 (i8 (2 * dd) + 1) in
      if len < 0 then (st, Inl MakeSliceLenOutOfRange)
      else let (st', a) = new_array st (replicate (nat len) (i8 (dd + 1)))
           in (st', Inr (State_s off a)))"

definition newNfa_s :: "store \<Rightarrow> rune list \<Rightarrow> int \<Rightarrow> store \<times> (error + nfa_s)" where
  "newNfa_s st runes dd =
     (let len = 3 * dd + 2 in
      if len < 0 then (st, Inl MakeSliceLenOutOfRange)
      else let (st', a) = new_array st (replicate (nat len) 0)
           in (st', Inr (Nfa_s runes dd a)))"

definition start_s :: "store \<Rightarrow> nfa_s \<Rightarrow> store \<times> (error + state_s)" where
  "start_s st n =
     (case newState_s st (d_s n) (i8 (- 2 * d_s n)) of
        (st1, Inl e) \<Rightarrow> (st1, Inl e)
      | (st1, Inr initial) \<Rightarrow>
          let k = i8 (2 * d_s n) in
          if 0 \<le> k \<and> k < int (length (array_at st1 (arr_s initial)))
          then (store_int st1 (arr_s initial) (nat k) 0, Inr initial)
          else (st1, Inl IndexOutOfRange))"

definition accepts_s :: "store \<Rightarrow> nfa_s \<Rightarrow> state_s \<Rightarrow> bool" where
  "accepts_s st n s =
     list_ex (\<lambda>i. let dist = i8 (int (length (rs_s n)) - offset_s s - int i)
                  in dist \<le> d_s n \<and> dist \<ge> array_at st (arr_s s) ! i)
       [0..<length (array_at st (arr_s s))]"

fun fill_jump_s :: "rune list \<Rightarrow> rune \<Rightarrow> int \<Rightarrow> addr \<Rightarrow> nat \<Rightarrow> int \<Rightarrow> store \<Rightarrow> store" where
  "fill_jump_s q r off ja 0 next st = st"
| "fill_jump_s q r off ja (Suc i) next st =
     (let x = off + int i;
          next' = (if x < int (length q) \<and> x \<ge> 0 \<and> q ! nat x = r then 0 else next)
      in fill_jump_s q r off ja i (i8 (next' + 1)) (store_int st ja i next'))"

text \<open>
  The second loop of \<^verbatim>\<open>transition\<close> reads \<^verbatim>\<open>s.arr\<close> and \<^verbatim>\<open>n.jump\<close> and writes
  \<^verbatim>\<open>ns.arr\<close>; each round reads the store that the rounds before it have left.
\<close>

fun trans_loop_s ::
  "int \<Rightarrow> addr \<Rightarrow> addr \<Rightarrow> addr \<Rightarrow> nat list \<Rightarrow> store \<Rightarrow> int \<Rightarrow> store \<times> (error + int)" where
  "trans_loop_s dd ja sa na [] st mn = (st, Inr mn)"
| "trans_loop_s dd ja sa na (j # js) st mn =
     (case trans_cell dd (array_at st ja) (array_at st sa) j of
        Inl e \<Rightarrow> (st, Inl e)
      | Inr val \<Rightarrow>
          trans_loop_s dd ja sa na js
            (if val < i8 (dd + 1) then store_int st na j val else st)
            (if val < mn then val else mn))"

definition transition_s ::
  "store \<Rightarrow> nfa_s \<Rightarrow> state_s \<Rightarrow> rune \<Rightarrow> store \<times> (error + state_s \<times> int)" where
  "transition_s st n s r =
     (case newState_s st (d_s n) (offset_s s + 1) of
        (st1, Inl e) \<Rightarrow> (st1, Inl e)
      | (st1, Inr ns) \<Rightarrow>
          let st2 = fill_jump_s (rs_s n) r (offset_s s) (jump_s n)
                      (length (array_at st1 (jump_s n))) (i8 (d_s n + 1)) st1
          in (case trans_loop_s (d_s n) (jump_s n) (arr_s s) (arr_s ns)
                     [0..<length (array_at st2 (arr_s ns))] st2 (i8 (d_s n + 1)) of
                (st3, Inl e) \<Rightarrow> (st3, Inl e)
              | (st3, Inr mn) \<Rightarrow> (st3, Inr (ns, mn))))"

subsection \<open>The traversal\<close>

datatype frame_s = Frame_s (fnode_s: node_s) (fstate_s: state_s)

text \<open>
  The loops below run over what the pointers of the store lead to, and a store can hold a
  cycle: \<open>fuel\<close> bounds the rounds of each loop, and \<open>None\<close> is the loop cut short.
\<close>

fun derefs :: "store \<Rightarrow> addr list \<Rightarrow> error + node_s list" where
  "derefs st [] = Inr []"
| "derefs st (p # ps) =
     (case deref st p of
        Inl e \<Rightarrow> Inl e
      | Inr x \<Rightarrow> (case derefs st ps of Inl e \<Rightarrow> Inl e | Inr xs \<Rightarrow> Inr (x # xs)))"

definition doNotExpandSuffixes_s ::
  "store \<Rightarrow> node_s \<Rightarrow> int \<Rightarrow> (error + KV list \<times> bool) option" where
  "doNotExpandSuffixes_s st n limit =
     Some (Inr ((case data_s n of Some kv \<Rightarrow> [kv] | None \<Rightarrow> []), False))"

fun expand_loop_s :: "nat \<Rightarrow> store \<Rightarrow> node_s list \<Rightarrow> KV list \<Rightarrow> int \<Rightarrow> (error + KV list) option" where
  "expand_loop_s 0 st stack results limit = None"
| "expand_loop_s (Suc fuel) st [] results limit = Some (Inr results)"
| "expand_loop_s (Suc fuel) st (x # stack) results limit =
     (case data_s x of
        Some kv \<Rightarrow>
          if limit \<le> int (length (results @ [kv])) then Some (Inr (results @ [kv]))
          else
            (case derefs st (map snd (children_at st (child_s x))) of
               Inl e \<Rightarrow> Some (Inl e)
             | Inr xs \<Rightarrow> expand_loop_s fuel st (rev xs @ stack) (results @ [kv]) limit)
      | None \<Rightarrow>
          (case derefs st (map snd (children_at st (child_s x))) of
             Inl e \<Rightarrow> Some (Inl e)
           | Inr xs \<Rightarrow> expand_loop_s fuel st (rev xs @ stack) results limit))"

definition expandSuffixes_s ::
  "nat \<Rightarrow> store \<Rightarrow> node_s \<Rightarrow> int \<Rightarrow> (error + KV list \<times> bool) option" where
  "expandSuffixes_s fuel st n limit =
     (case expand_loop_s fuel st [n] [] limit of
        None \<Rightarrow> None
      | Some (Inl e) \<Rightarrow> Some (Inl e)
      | Some (Inr results) \<Rightarrow> Some (Inr (results, True)))"

fun push_children_s ::
  "nfa_s \<Rightarrow> state_s \<Rightarrow> (rune \<times> addr) list \<Rightarrow> store \<Rightarrow> frame_s list list
     \<Rightarrow> store \<times> (error + frame_s list list)" where
  "push_children_s n s [] st stacks = (st, Inr stacks)"
| "push_children_s n s ((r, c) # cs) st stacks =
     (case transition_s st n s r of
        (st1, Inl e) \<Rightarrow> (st1, Inl e)
      | (st1, Inr (ns, mn)) \<Rightarrow>
          if mn < i8 (d_s n + 1) then
            (if 0 \<le> mn \<and> mn < int (length stacks)
             then (case deref st1 c of
                     Inl e \<Rightarrow> (st1, Inl e)
                   | Inr x \<Rightarrow>
                       push_children_s n s cs st1
                         (stacks[nat mn := Frame_s x ns # stacks ! nat mn]))
             else (st1, Inl IndexOutOfRange))
          else push_children_s n s cs st1 stacks)"

fun suggest_loop_s ::
  "nat \<Rightarrow> (store \<Rightarrow> node_s \<Rightarrow> int \<Rightarrow> (error + KV list \<times> bool) option) \<Rightarrow> nfa_s \<Rightarrow> int \<Rightarrow> nat
     \<Rightarrow> store \<Rightarrow> frame_s list list \<Rightarrow> KV list \<Rightarrow> store \<times> (error + KV list) option" where
  "suggest_loop_s 0 process n limit i st stacks results = (st, None)"
| "suggest_loop_s (Suc fuel) process n limit i st stacks results =
     (if length stacks \<le> i then (st, Some (Inr results))
      else
        case stacks ! i of
          [] \<Rightarrow> suggest_loop_s fuel process n limit (Suc i) st stacks results
        | f # rest \<Rightarrow>
            if accepts_s st n (fstate_s f) then
              (case process st (fnode_s f) (limit - int (length results)) of
                 None \<Rightarrow> (st, None)
               | Some (Inl e) \<Rightarrow> (st, Some (Inl e))
               | Some (Inr (res, halt)) \<Rightarrow>
                   if limit \<le> int (length (results @ res)) then
                     (if limit < 0 then (st, Some (Inl SliceBoundsOutOfRange))
                      else (st, Some (Inr (take (nat limit) (results @ res)))))
                   else if halt then
                     suggest_loop_s fuel process n limit i st (stacks[i := rest]) (results @ res)
                   else
                     (case push_children_s n (fstate_s f) (children_at st (child_s (fnode_s f))) st
                             (stacks[i := rest]) of
                        (st1, Inl e) \<Rightarrow> (st1, Some (Inl e))
                      | (st1, Inr stacks') \<Rightarrow>
                          suggest_loop_s fuel process n limit i st1 stacks' (results @ res)))
            else
              (case push_children_s n (fstate_s f) (children_at st (child_s (fnode_s f))) st
                      (stacks[i := rest]) of
                 (st1, Inl e) \<Rightarrow> (st1, Some (Inl e))
               | (st1, Inr stacks') \<Rightarrow> suggest_loop_s fuel process n limit i st1 stacks' results))"

definition suggest_s ::
  "nat \<Rightarrow> (store \<Rightarrow> node_s \<Rightarrow> int \<Rightarrow> (error + KV list \<times> bool) option) \<Rightarrow> store \<Rightarrow> node_s
     \<Rightarrow> rune list \<Rightarrow> int \<Rightarrow> int \<Rightarrow> store \<times> (error + KV list) option" where
  "suggest_s fuel process st root_node runes dd limit =
     (case newNfa_s st runes dd of
        (st1, Inl e) \<Rightarrow> (st1, Some (Inl e))
      | (st1, Inr n) \<Rightarrow>
          (case start_s st1 n of
             (st2, Inl e) \<Rightarrow> (st2, Some (Inl e))
           | (st2, Inr s0) \<Rightarrow>
               let len = i8 (dd + 1) in
               if len < 0 then (st2, Some (Inl MakeSliceLenOutOfRange))
               else if len = 0 then (st2, Some (Inl IndexOutOfRange))
               else suggest_loop_s fuel process n limit 0 st2
                      ((replicate (nat len) [])[0 := [Frame_s root_node s0]]) []))"

subsection \<open>\<^verbatim>\<open>Get\<close> and the public searches\<close>

text \<open>A \<^verbatim>\<open>Trie\<close> holds the pointer to its root: here its address.\<close>

fun walk_s :: "store \<Rightarrow> addr \<Rightarrow> rune list \<Rightarrow> addr option" where
  "walk_s st p [] = Some p"
| "walk_s st p (r # rs) =
     (case map_of (children_at st p) r of None \<Rightarrow> None | Some x \<Rightarrow> walk_s st x rs)"

definition Get_s :: "store \<Rightarrow> addr \<Rightarrow> string \<Rightarrow> string \<times> bool" where
  "Get_s st t key =
     (case walk_s st t (extractRunes key) of
        None \<Rightarrow> ('''', False)
      | Some p \<Rightarrow>
          (case node_at st p of
             None \<Rightarrow> ('''', False)
           | Some c \<Rightarrow> (case entry c of Some kv \<Rightarrow> (Value kv, True) | None \<Rightarrow> ('''', False))))"

definition Suggest_s ::
  "nat \<Rightarrow> store \<Rightarrow> addr \<Rightarrow> string \<Rightarrow> int \<Rightarrow> int \<Rightarrow> store \<times> (error + KV list) option" where
  "Suggest_s fuel st t key dd n =
     (case deref st t of
        Inl e \<Rightarrow> (st, Some (Inl e))
      | Inr x \<Rightarrow> suggest_s fuel doNotExpandSuffixes_s st x (extractRunes key) dd n)"

definition SuggestSuffixes_s ::
  "nat \<Rightarrow> store \<Rightarrow> addr \<Rightarrow> string \<Rightarrow> int \<Rightarrow> int \<Rightarrow> store \<times> (error + KV list) option" where
  "SuggestSuffixes_s fuel st t key dd n =
     (case deref st t of
        Inl e \<Rightarrow> (st, Some (Inl e))
      | Inr x \<Rightarrow> suggest_s fuel (expandSuffixes_s fuel) st x (extractRunes key) dd n)"

definition exact_prefix_search_s ::
  "nat \<Rightarrow> (store \<Rightarrow> node_s \<Rightarrow> int \<Rightarrow> (error + KV list \<times> bool) option) \<Rightarrow> rune list \<Rightarrow> store
     \<Rightarrow> addr \<Rightarrow> string \<Rightarrow> int \<Rightarrow> int \<Rightarrow> int \<Rightarrow> store \<times> (error + KV list) option" where
  "exact_prefix_search_s fuel process spare st t key p dd n =
     (let runes = extractRunes key in
      case slice_to runes spare p of
        Inl e \<Rightarrow> (st, Some (Inl e))
      | Inr pre \<Rightarrow>
          (case walk_s st t pre of
             None \<Rightarrow> (st, Some (Inr []))
           | Some cur \<Rightarrow>
               (case slice_from runes p of
                  Inl e \<Rightarrow> (st, Some (Inl e))
                | Inr rest \<Rightarrow>
                    (case deref st cur of
                       Inl e \<Rightarrow> (st, Some (Inl e))
                     | Inr x \<Rightarrow> suggest_s fuel process st x rest dd n))))"

definition SuggestAfterExactPrefix_s ::
  "nat \<Rightarrow> rune list \<Rightarrow> store \<Rightarrow> addr \<Rightarrow> string \<Rightarrow> int \<Rightarrow> int \<Rightarrow> int
     \<Rightarrow> store \<times> (error + KV list) option" where
  "SuggestAfterExactPrefix_s fuel spare st t key p dd n =
     exact_prefix_search_s fuel doNotExpandSuffixes_s spare st t key p dd n"

definition SuggestSuffixesAfterExactPrefix_s ::
  "nat \<Rightarrow> rune list \<Rightarrow> store \<Rightarrow> addr \<Rightarrow> string \<Rightarrow> int \<Rightarrow> int \<Rightarrow> int
     \<Rightarrow> store \<times> (error + KV list) option" where
  "SuggestSuffixesAfterExactPrefix_s fuel spare st t key p dd n =
     exact_prefix_search_s fuel (expandSuffixes_s fuel) spare st t key p dd n"
subsection \<open>Where a search writes\<close>

text \<open>
  \<open>grown st st'\<close>: the store \<open>st'\<close> is \<open>st\<close> with arrays behind it; every cell of \<open>st\<close> is
  in \<open>st'\<close> what it was.
\<close>

definition grown :: "store \<Rightarrow> store \<Rightarrow> bool" where
  "grown st st' = (\<exists>xs. st' = st @ map ArrCell xs)"

lemma grown_refl: "grown st st"
  unfolding grown_def by (rule exI [of _ "[]"]) simp

lemma grown_length: "grown st st' \<Longrightarrow> length st \<le> length st'"
  by (auto simp: grown_def)

lemma grown_new_array:
  assumes "grown st0 st"
  shows "grown st0 (fst (new_array st xs))" and "length st0 \<le> snd (new_array st xs)"
proof -
  from assms obtain ys where "st = st0 @ map ArrCell ys" by (auto simp: grown_def)
  then have "fst (new_array st xs) = st0 @ map ArrCell (ys @ [xs])"
    by (simp add: new_array_def)
  then show "grown st0 (fst (new_array st xs))" unfolding grown_def by blast
  from grown_length [OF assms] show "length st0 \<le> snd (new_array st xs)"
    by (simp add: new_array_def)
qed

lemma grown_store_int:
  assumes "grown st0 st" and "length st0 \<le> a"
  shows "grown st0 (store_int st a i v)"
proof -
  from assms(1) obtain ys where st: "st = st0 @ map ArrCell ys" by (auto simp: grown_def)
  have "store_int st a i v = st0 @ map ArrCell (ys[a - length st0 := (array_at st a)[i := v]])"
    using assms(2) by (simp add: store_int_def st list_update_append map_update)
  then show ?thesis unfolding grown_def by blast
qed

lemma newState_s_grown:
  assumes "grown st0 st" and "newState_s st dd off = (st', r)"
  shows "grown st0 st'" and "r = Inr s \<Longrightarrow> length st0 \<le> arr_s s"
proof -
  note fresh = grown_new_array [OF assms(1), of "replicate (nat (i8 (i8 (2 * dd) + 1))) (i8 (dd + 1))"]
  from assms fresh show "grown st0 st'"
    by (auto simp: newState_s_def Let_def split: if_splits prod.splits)
  from assms fresh show "length st0 \<le> arr_s s" if "r = Inr s"
    using that by (auto simp: newState_s_def Let_def split: if_splits prod.splits)
qed

lemma newNfa_s_grown:
  assumes "grown st0 st" and "newNfa_s st runes dd = (st', r)"
  shows "grown st0 st'" and "r = Inr n \<Longrightarrow> length st0 \<le> jump_s n"
proof -
  note fresh = grown_new_array [OF assms(1), of "replicate (nat (3 * dd + 2)) 0"]
  from assms fresh show "grown st0 st'"
    by (auto simp: newNfa_s_def Let_def split: if_splits prod.splits)
  from assms fresh show "length st0 \<le> jump_s n" if "r = Inr n"
    using that by (auto simp: newNfa_s_def Let_def split: if_splits prod.splits)
qed

lemma start_s_grown:
  assumes "grown st0 st" and "start_s st n = (st', r)"
  shows "grown st0 st'" and "r = Inr s \<Longrightarrow> length st0 \<le> arr_s s"
proof -
  obtain st1 r1 where ns: "newState_s st (d_s n) (i8 (- 2 * d_s n)) = (st1, r1)"
    by (cases "newState_s st (d_s n) (i8 (- 2 * d_s n))")
  note g1 = newState_s_grown [OF assms(1) ns]
  show "grown st0 st'"
  proof (cases r1)
    case (Inl e)
    with assms(2) ns g1(1) show ?thesis by (simp add: start_s_def)
  next
    case (Inr initial)
    from g1(2) [OF Inr] have "length st0 \<le> arr_s initial" .
    from grown_store_int [OF g1(1) this] g1(1) assms(2) ns Inr show ?thesis
      by (auto simp: start_s_def Let_def split: if_splits)
  qed
  show "length st0 \<le> arr_s s" if "r = Inr s"
  proof (cases r1)
    case (Inl e)
    with assms(2) ns that show ?thesis by (simp add: start_s_def)
  next
    case (Inr initial)
    with assms(2) ns that have "s = initial"
      by (auto simp: start_s_def Let_def split: if_splits)
    with g1(2) [OF Inr] show ?thesis by simp
  qed
qed

lemma fill_jump_s_grown:
  assumes "grown st0 st" and "length st0 \<le> ja"
  shows "grown st0 (fill_jump_s q r off ja k nxt st)"
  using assms(1)
proof (induction k arbitrary: nxt st)
  case 0
  then show ?case by simp
next
  case (Suc k)
  from grown_store_int [OF Suc.prems assms(2)] show ?case
    by (simp add: Let_def Suc.IH)
qed

lemma trans_loop_s_grown:
  assumes "grown st0 st" and "length st0 \<le> na"
  shows "grown st0 (fst (trans_loop_s dd ja sa na js st mn))"
  using assms(1)
proof (induction js arbitrary: st mn)
  case Nil
  then show ?case by simp
next
  case (Cons j js)
  show ?case
  proof (cases "trans_cell dd (array_at st ja) (array_at st sa) j")
    case (Inl e)
    with Cons.prems show ?thesis by simp
  next
    case (Inr val)
    from grown_store_int [OF Cons.prems assms(2)] Cons.prems
    have "grown st0 (if val < i8 (dd + 1) then store_int st na j val else st)" by simp
    from Cons.IH [OF this] Inr show ?thesis by simp
  qed
qed

lemma transition_s_grown:
  assumes "grown st0 st" and "length st0 \<le> jump_s n"
  shows "grown st0 (fst (transition_s st n s r))"
proof -
  obtain st1 r1 where ns: "newState_s st (d_s n) (offset_s s + 1) = (st1, r1)"
    by (cases "newState_s st (d_s n) (offset_s s + 1)")
  note g1 = newState_s_grown [OF assms(1) ns]
  show ?thesis
  proof (cases r1)
    case (Inl e)
    with ns g1(1) show ?thesis by (simp add: transition_s_def)
  next
    case (Inr ns')
    define st2 where "st2 = fill_jump_s (rs_s n) r (offset_s s) (jump_s n)
                      (length (array_at st1 (jump_s n))) (i8 (d_s n + 1)) st1"
    have g2: "grown st0 st2" unfolding st2_def by (rule fill_jump_s_grown [OF g1(1) assms(2)])
    obtain st3 r3 where tl: "trans_loop_s (d_s n) (jump_s n) (arr_s s) (arr_s ns')
        [0..<length (array_at st2 (arr_s ns'))] st2 (i8 (d_s n + 1)) = (st3, r3)"
      by (cases "trans_loop_s (d_s n) (jump_s n) (arr_s s) (arr_s ns')
        [0..<length (array_at st2 (arr_s ns'))] st2 (i8 (d_s n + 1))")
    from trans_loop_s_grown [OF g2 g1(2) [OF Inr], of "d_s n" "jump_s n" "arr_s s"
        "[0..<length (array_at st2 (arr_s ns'))]" "i8 (d_s n + 1)"] tl
    have "grown st0 st3" by simp
    then show ?thesis
      by (cases r3) (simp_all add: transition_s_def ns Inr Let_def st2_def [symmetric] tl)
  qed
qed

lemma push_children_s_grown:
  assumes "grown st0 st" and "length st0 \<le> jump_s n"
  shows "grown st0 (fst (push_children_s n s cs st stacks))"
  using assms(1)
proof (induction cs arbitrary: st stacks)
  case Nil
  then show ?case by simp
next
  case (Cons rc cs)
  obtain r c where rc: "rc = (r, c)" by (cases rc)
  obtain st1 r1 where t: "transition_s st n s r = (st1, r1)" by (cases "transition_s st n s r")
  from transition_s_grown [OF Cons.prems assms(2), of s r] t have g1: "grown st0 st1" by simp
  show ?case
  proof (cases r1)
    case (Inl e)
    with t g1 show ?thesis by (simp add: rc)
  next
    case (Inr p)
    obtain ns mn where p: "p = (ns, mn)" by (cases p)
    from Cons.IH [OF g1] g1 t Inr p show ?thesis
      by (simp add: rc split: sum.splits)
  qed
qed

lemma suggest_loop_s_grown:
  assumes "grown st0 st" and "length st0 \<le> jump_s n"
  shows "grown st0 (fst (suggest_loop_s fuel process n limit i st stacks results))"
  using assms(1)
proof (induction fuel arbitrary: i st stacks results)
  case 0
  then show ?case by simp
next
  case (Suc fuel)
  show ?case
  proof (cases "length stacks \<le> i")
    case True
    with Suc.prems show ?thesis by simp
  next
    case False
    show ?thesis
    proof (cases "stacks ! i")
      case Nil
      with False Suc.IH [OF Suc.prems] show ?thesis by simp
    next
      case (Cons f rest)
      have push: "grown st0 (fst (case push_children_s n (fstate_s f)
                              (children_at st (child_s (fnode_s f))) st (stacks[i := rest]) of
                     (st1, Inl e) \<Rightarrow> (st1, Some (Inl e))
                   | (st1, Inr stacks') \<Rightarrow>
                       suggest_loop_s fuel process n limit i st1 stacks' res))" for res
      proof -
        obtain st1 r1 where pc: "push_children_s n (fstate_s f)
            (children_at st (child_s (fnode_s f))) st (stacks[i := rest]) = (st1, r1)"
          by (cases "push_children_s n (fstate_s f)
            (children_at st (child_s (fnode_s f))) st (stacks[i := rest])")
        from push_children_s_grown [OF Suc.prems assms(2),
            of "fstate_s f" "children_at st (child_s (fnode_s f))" "stacks[i := rest]"] pc
        have "grown st0 st1" by simp
        with Suc.IH [OF this] pc show ?thesis by (cases r1) simp_all
      qed
      show ?thesis
      proof (cases "accepts_s st n (fstate_s f)")
        case True
        show ?thesis
        proof (cases "process st (fnode_s f) (limit - int (length results))")
          case None
          with False Cons True Suc.prems show ?thesis by simp
        next
          case (Some pr)
          show ?thesis
          proof (cases pr)
            case (Inl e)
            with False Cons True Some Suc.prems show ?thesis by simp
          next
            case (Inr rh)
            obtain res halt where rh: "rh = (res, halt)" by (cases rh)
            from False Cons True Some Inr rh Suc.prems Suc.IH [OF Suc.prems] push [of "results @ res"]
            show ?thesis by simp
          qed
        qed
      next
        case acc: False
        with False Cons push [of results] show ?thesis by simp
      qed
    qed
  qed
qed

lemma suggest_s_grown:
  assumes "grown st0 st"
  shows "grown st0 (fst (suggest_s fuel process st x runes dd limit))"
proof -
  obtain st1 r1 where nn: "newNfa_s st runes dd = (st1, r1)" by (cases "newNfa_s st runes dd")
  note g1 = newNfa_s_grown [OF assms nn]
  show ?thesis
  proof (cases r1)
    case (Inl e)
    with nn g1(1) show ?thesis by (simp add: suggest_s_def)
  next
    case (Inr n)
    obtain st2 r2 where ss: "start_s st1 n = (st2, r2)" by (cases "start_s st1 n")
    note g2 = start_s_grown [OF g1(1) ss]
    show ?thesis
    proof (cases r2)
      case (Inl e)
      with nn Inr ss g2(1) show ?thesis by (simp add: suggest_s_def)
    next
      case s0: (Inr s0)
      from suggest_loop_s_grown [OF g2(1) g1(2) [OF Inr]] g2(1) nn Inr ss s0
      show ?thesis by (simp add: suggest_s_def Let_def)
    qed
  qed
qed

lemma exact_prefix_search_s_grown:
  "grown st (fst (exact_prefix_search_s fuel process spare st t key p dd n))"
  using suggest_s_grown [OF grown_refl, where st = st and fuel = fuel and process = process]
  by (simp add: exact_prefix_search_s_def Let_def grown_refl split: sum.splits option.splits)

subsection \<open>What \<^verbatim>\<open>Get\<close> reads\<close>

lemma grown_node_at:
  assumes "grown st st'"
  shows "node_at st' a = node_at st a"
proof -
  from assms obtain xs where st': "st' = st @ map ArrCell xs" by (auto simp: grown_def)
  show ?thesis
  proof (cases "a < length st")
    case True
    then show ?thesis by (simp add: node_at_def st' nth_append)
  next
    case False
    then show ?thesis by (simp add: node_at_def st' nth_append)
  qed
qed

lemma grown_walk_s:
  assumes "grown st st'"
  shows "walk_s st' p path = walk_s st p path"
  by (induction path arbitrary: p)
     (simp_all add: children_at_def grown_node_at [OF assms] split: option.splits)

lemma grown_Get_s:
  assumes "grown st st'"
  shows "Get_s st' t k = Get_s st t k"
  by (simp add: Get_s_def grown_walk_s [OF assms] grown_node_at [OF assms]
        cong: option.case_cong)

lemma grown_take: "grown st st' \<Longrightarrow> take (length st) st' = st"
  by (auto simp: grown_def)
lemma searches_grown:
  "grown st (fst (Suggest_s fuel st t key dd n))"
  "grown st (fst (SuggestSuffixes_s fuel st t key dd n))"
  "grown st (fst (SuggestAfterExactPrefix_s fuel spare st t key p dd n))"
  "grown st (fst (SuggestSuffixesAfterExactPrefix_s fuel spare st t key p dd n))"
proof -
  show "grown st (fst (Suggest_s fuel st t key dd n))"
    using suggest_s_grown [OF grown_refl, where st = st and fuel = fuel
        and process = doNotExpandSuffixes_s]
    by (simp add: Suggest_s_def grown_refl split: sum.splits)
  show "grown st (fst (SuggestSuffixes_s fuel st t key dd n))"
    using suggest_s_grown [OF grown_refl, where st = st and fuel = fuel
        and process = "expandSuffixes_s fuel"]
    by (simp add: SuggestSuffixes_s_def grown_refl split: sum.splits)
  show "grown st (fst (SuggestAfterExactPrefix_s fuel spare st t key p dd n))"
    unfolding SuggestAfterExactPrefix_s_def by (rule exact_prefix_search_s_grown)
  show "grown st (fst (SuggestSuffixesAfterExactPrefix_s fuel spare st t key p dd n))"
    unfolding SuggestSuffixesAfterExactPrefix_s_def by (rule exact_prefix_search_s_grown)
qed

text \<open>
  C10. No search writes to the trie. Whatever the store, the root, the query, the bounds
  and the number of rounds the loops are given, the store that each of the four searches
  leaves holds every cell that was there before the call, unchanged (the search has only
  put arrays behind them), and \<^verbatim>\<open>Get\<close> of any key, from any root, returns on it what it
  returned before the call. The searches are those of the store model, where a write
  \<^verbatim>\<open>x[i] = v\<close> overwrites the cell at the address of \<^verbatim>\<open>x\<close> whatever that cell holds; the last
  section shows that they return what the searches on the trie value return.
\<close>

theorem search_writes_no_node:
  "take (length st) (fst (Suggest_s fuel st t key dd n)) = st
   \<and> Get_s (fst (Suggest_s fuel st t key dd n)) u k = Get_s st u k
   \<and> take (length st) (fst (SuggestSuffixes_s fuel st t key dd n)) = st
   \<and> Get_s (fst (SuggestSuffixes_s fuel st t key dd n)) u k = Get_s st u k
   \<and> take (length st) (fst (SuggestAfterExactPrefix_s fuel spare st t key p dd n)) = st
   \<and> Get_s (fst (SuggestAfterExactPrefix_s fuel spare st t key p dd n)) u k = Get_s st u k
   \<and> take (length st) (fst (SuggestSuffixesAfterExactPrefix_s fuel spare st t key p dd n)) = st
   \<and> Get_s (fst (SuggestSuffixesAfterExactPrefix_s fuel spare st t key p dd n)) u k
         = Get_s st u k"
  by (intro conjI grown_take grown_Get_s searches_grown)

theorem search_writes_no_node_witness:
  "Suggest_s 100
     [NodeCell [(97, 1)] None, NodeCell [(98, 2), (99, 3)] (Some (KV ''a'' ''1'')),
      NodeCell [] (Some (KV ''ab'' ''2'')), NodeCell [] (Some (KV ''ac'' ''3''))]
     0 ''ab'' 1 10
   = ([NodeCell [(97, 1)] None, NodeCell [(98, 2), (99, 3)] (Some (KV ''a'' ''1'')),
       NodeCell [] (Some (KV ''ab'' ''2'')), NodeCell [] (Some (KV ''ac'' ''3'')),
       ArrCell [6, 5, 4, 3, 2], ArrCell [2, 2, 0], ArrCell [1, 1, 0], ArrCell [1, 1, 0],
       ArrCell [1, 1, 2]],
      Some (Inr [KV ''a'' ''1'', KV ''ab'' ''2'', KV ''ac'' ''3'']))
   \<and> Get_s [NodeCell [(97, 1)] None, NodeCell [(98, 2), (99, 3)] (Some (KV ''a'' ''1'')),
       NodeCell [] (Some (KV ''ab'' ''2'')), NodeCell [] (Some (KV ''ac'' ''3'')),
       ArrCell [6, 5, 4, 3, 2], ArrCell [2, 2, 0], ArrCell [1, 1, 0], ArrCell [1, 1, 0],
       ArrCell [1, 1, 2]] 0 ''ac''
     = Get_s [NodeCell [(97, 1)] None, NodeCell [(98, 2), (99, 3)] (Some (KV ''a'' ''1'')),
         NodeCell [] (Some (KV ''ab'' ''2'')), NodeCell [] (Some (KV ''ac'' ''3''))] 0 ''ac''
   \<and> Get_s [NodeCell [(97, 1)] None, NodeCell [(98, 2), (99, 3)] (Some (KV ''a'' ''1'')),
         NodeCell [] (Some (KV ''ab'' ''2'')), NodeCell [] (Some (KV ''ac'' ''3''))] 0 ''ac''
     = (''3'', True)
   \<and> Suggest (Trie_Set (Trie_Set (Trie_Set New ''a'' ''1'') ''ab'' ''2'') ''ac'' ''3'') ''ab'' 1 10
     = Inr [KV ''a'' ''1'', KV ''ab'' ''2'', KV ''ac'' ''3'']"
proof -
  define S where "S = [NodeCell [(97, 1)] None, NodeCell [(98, 2), (99, 3)] (Some (KV ''a'' ''1'')),
      NodeCell [] (Some (KV ''ab'' ''2'')), NodeCell [] (Some (KV ''ac'' ''3''))]"
  have run: "Suggest_s 100 S 0 ''ab'' 1 10
     = (S @ [ArrCell [6, 5, 4, 3, 2], ArrCell [2, 2, 0], ArrCell [1, 1, 0], ArrCell [1, 1, 0],
             ArrCell [1, 1, 2]],
        Some (Inr [KV ''a'' ''1'', KV ''ab'' ''2'', KV ''ac'' ''3'']))"
    unfolding S_def by code_simp
  have get: "Get_s S 0 ''ac'' = (''3'', True)" unfolding S_def by code_simp
  have pure: "Suggest (Trie_Set (Trie_Set (Trie_Set New ''a'' ''1'') ''ab'' ''2'') ''ac'' ''3'')
      ''ab'' 1 10 = Inr [KV ''a'' ''1'', KV ''ab'' ''2'', KV ''ac'' ''3'']"
    by code_simp
  from search_writes_no_node [of S 100 0 "''ab''" 1 10 0 "''ac''"] run get pure
  show ?thesis by (simp add: S_def)
qed

section \<open>The store and the trie as a value\<close>

text \<open>
  The two models of the searches meet: on a store that lays out a trie, and with rounds
  enough for its nodes, a search on the store returns what the search on the trie value
  returns. \<open>lays_out st p x\<close>: the cell at \<open>p\<close> is a node with the entry of \<open>x\<close> whose child
  map has the scalars of the child map of \<open>x\<close>, in the same order of enumeration, each
  leading to the layout of the child's subtree.
\<close>

inductive lays_out :: "store \<Rightarrow> addr \<Rightarrow> node \<Rightarrow> bool" for st :: store where
  "node_at st p = Some c \<Longrightarrow> entry c = dt \<Longrightarrow> length (children c) = length cs \<Longrightarrow>
   (\<forall>i<length cs. fst (children c ! i) = fst (cs ! i)
        \<and> lays_out st (snd (children c ! i)) (snd (cs ! i))) \<Longrightarrow>
   lays_out st p (Node cs dt)"

definition same_edges :: "store \<Rightarrow> (rune \<times> addr) list \<Rightarrow> (rune \<times> node) list \<Rightarrow> bool" where
  "same_edges st hs cs =
     (length hs = length cs
      \<and> (\<forall>i<length cs. fst (hs ! i) = fst (cs ! i) \<and> lays_out st (snd (hs ! i)) (snd (cs ! i))))"

lemma lays_outD:
  assumes "lays_out st p x"
  shows "\<exists>c. node_at st p = Some c \<and> entry c = data x \<and> same_edges st (children c) (child x)"
  using assms by (cases rule: lays_out.cases) (auto simp: same_edges_def)

lemma lays_out_children:
  assumes "lays_out st p x"
  shows "same_edges st (children_at st p) (child x)"
  using lays_outD [OF assms] by (auto simp: children_at_def)

lemma lays_out_deref:
  assumes "lays_out st p x"
  shows "deref st p = Inr (Node_s p (data x))"
  using lays_outD [OF assms] by (auto simp: deref_def)

lemma same_edges_Nil [simp]: "same_edges st [] cs \<longleftrightarrow> cs = []" "same_edges st hs [] \<longleftrightarrow> hs = []"
  by (auto simp: same_edges_def)

lemma same_edges_Cons:
  "same_edges st (h # hs) (c # cs)
     \<longleftrightarrow> fst h = fst c \<and> lays_out st (snd h) (snd c) \<and> same_edges st hs cs"
  unfolding same_edges_def
  by (auto simp: All_less_Suc2 simp del: length_Cons)

lemma same_edges_map_of:
  assumes "same_edges st hs cs"
  shows "(map_of hs r = None \<and> map_of cs r = None)
       \<or> (\<exists>a x. map_of hs r = Some a \<and> map_of cs r = Some x \<and> lays_out st a x)"
  using assms
proof (induction hs arbitrary: cs)
  case Nil
  then show ?case by simp
next
  case (Cons h hs)
  from Cons.prems obtain c cs' where cs: "cs = c # cs'" by (cases cs) simp_all
  from Cons.prems have h: "fst h = fst c" "lays_out st (snd h) (snd c)" "same_edges st hs cs'"
    by (simp_all add: cs same_edges_Cons)
  show ?case
  proof (cases "fst h = r")
    case True
    with h show ?thesis by (cases h; cases c) (simp add: cs)
  next
    case False
    with h Cons.IH [OF h(3)] show ?thesis by (cases h; cases c) (simp add: cs)
  qed
qed

lemma walk_s_walk:
  assumes "lays_out st p x"
  shows "(walk_s st p path = None \<and> walk x path = None)
       \<or> (\<exists>a y. walk_s st p path = Some a \<and> walk x path = Some y \<and> lays_out st a y)"
  using assms
proof (induction path arbitrary: p x)
  case Nil
  then show ?case by simp
next
  case (Cons r path)
  from same_edges_map_of [OF lays_out_children [OF Cons.prems], of r]
  show ?case
  proof
    assume "map_of (children_at st p) r = None \<and> map_of (child x) r = None"
    then show ?thesis by simp
  next
    assume "\<exists>a y. map_of (children_at st p) r = Some a \<and> map_of (child x) r = Some y
              \<and> lays_out st a y"
    then obtain a y where "map_of (children_at st p) r = Some a" "map_of (child x) r = Some y"
      "lays_out st a y" by blast
    with Cons.IH [OF this(3)] show ?thesis by simp
  qed
qed

lemma Get_s_Trie_Get:
  assumes "lays_out st p (root t)"
  shows "Get_s st p key = Trie_Get t key"
proof -
  from walk_s_walk [OF assms, of "extractRunes key"] show ?thesis
  proof
    assume "walk_s st p (extractRunes key) = None \<and> walk (root t) (extractRunes key) = None"
    then show ?thesis by (simp add: Get_s_def Trie_Get_def)
  next
    assume "\<exists>a y. walk_s st p (extractRunes key) = Some a \<and> walk (root t) (extractRunes key) = Some y
              \<and> lays_out st a y"
    then obtain a y where w: "walk_s st p (extractRunes key) = Some a"
      "walk (root t) (extractRunes key) = Some y" and l: "lays_out st a y" by blast
    from lays_outD [OF l] w show ?thesis
      by (auto simp: Get_s_def Trie_Get_def)
  qed
qed

text \<open>A layout stays one when the store grows.\<close>

lemma grown_lays_out:
  assumes "grown st st'" and "lays_out st p x"
  shows "lays_out st' p x"
  using assms(2)
proof (induction rule: lays_out.induct)
  case (1 p c dt cs)
  have n: "node_at st' p = Some c" using 1(1) by (simp add: grown_node_at [OF assms(1)])
  from 1(4) have below: "\<forall>i<length cs. fst (children c ! i) = fst (cs ! i)
        \<and> lays_out st' (snd (children c ! i)) (snd (cs ! i))" by simp
  show ?case by (rule lays_out.intros [OF n 1(2,3) below])
qed
subsection \<open>The automaton on the store and on values\<close>

lemma array_at_arr: "a < length st \<Longrightarrow> st ! a = ArrCell xs \<Longrightarrow> array_at st a = xs"
  by (simp add: array_at_def)

lemma store_int_arr:
  "a < length st \<Longrightarrow> st ! a = ArrCell xs \<Longrightarrow> store_int st a i v = st[a := ArrCell (xs[i := v])]"
  by (simp add: store_int_def array_at_arr)

lemma same_cell: "a < length st \<Longrightarrow> st ! a = c \<Longrightarrow> st[a := c] = st"
  by (simp add: list_update_same_conv)

lemma array_at_update_other:
  "a \<noteq> b \<Longrightarrow> array_at (st[b := c]) a = array_at st a"
  by (simp add: array_at_def)

lemma fill_jump_s_arr:
  assumes "ja < length st" and "st ! ja = ArrCell J"
  shows "fill_jump_s q r off ja k nxt st = st[ja := ArrCell (fill_jump q r off k nxt J)]"
  using assms
proof (induction k arbitrary: nxt st J)
  case 0
  then show ?case by (simp add: same_cell)
next
  case (Suc k)
  define nxt' where "nxt' = (if off + int k < int (length q) \<and> off + int k \<ge> 0
      \<and> q ! nat (off + int k) = r then 0 else nxt)"
  have w: "store_int st ja k nxt' = st[ja := ArrCell (J[k := nxt'])]"
    by (rule store_int_arr [OF Suc.prems])
  have "fill_jump_s q r off ja k (i8 (nxt' + 1)) (st[ja := ArrCell (J[k := nxt'])])
          = (st[ja := ArrCell (J[k := nxt'])])[ja := ArrCell (fill_jump q r off k (i8 (nxt' + 1)) (J[k := nxt']))]"
    using Suc.prems(1) by (intro Suc.IH) simp_all
  then show ?case by (simp add: Let_def nxt'_def [symmetric] w)
qed

text \<open>The first loop of \<^verbatim>\<open>transition\<close> writes every cell of the table.\<close>

lemma fill_jump_above: "k \<le> i \<Longrightarrow> fill_jump q r off k nxt jmp ! i = jmp ! i"
  by (induction k arbitrary: nxt jmp) (simp_all add: Let_def)

lemma fill_jump_below:
  assumes "k \<le> length jmp" and "length jmp = length jmp'" and "i < k"
  shows "fill_jump q r off k nxt jmp ! i = fill_jump q r off k nxt jmp' ! i"
  using assms
proof (induction k arbitrary: nxt jmp jmp')
  case 0
  then show ?case by simp
next
  case (Suc k)
  define nxt' where "nxt' = (if off + int k < int (length q) \<and> off + int k \<ge> 0
      \<and> q ! nat (off + int k) = r then 0 else nxt)"
  have step: "fill_jump q r off (Suc k) nxt xs = fill_jump q r off k (i8 (nxt' + 1)) (xs[k := nxt'])"
    for xs by (simp add: Let_def nxt'_def)
  show ?case
  proof (cases "i = k")
    case True
    with Suc.prems show ?thesis unfolding step by (simp add: fill_jump_above)
  next
    case False
    with Suc.prems have "i < k" by simp
    with Suc.prems Suc.IH [of "jmp[k := nxt']" "jmp'[k := nxt']" "i8 (nxt' + 1)"]
    show ?thesis unfolding step by simp
  qed
qed

lemma fill_jump_whole:
  assumes "length jmp = length jmp'"
  shows "fill_jump q r off (length jmp) nxt jmp = fill_jump q r off (length jmp') nxt jmp'"
proof (rule nth_equalityI)
  show "length (fill_jump q r off (length jmp) nxt jmp)
          = length (fill_jump q r off (length jmp') nxt jmp')"
    using assms by simp
next
  fix i
  assume "i < length (fill_jump q r off (length jmp) nxt jmp)"
  then have "i < length jmp" by simp
  from fill_jump_below [OF _ assms this, of q r off nxt] assms
  show "fill_jump q r off (length jmp) nxt jmp ! i = fill_jump q r off (length jmp') nxt jmp' ! i"
    by simp
qed

lemma trans_loop_s_arr:
  assumes "ja < length st" and "st ! ja = ArrCell J" and "na < length st" and "st ! na = ArrCell N"
    and "na \<noteq> ja" and "na \<noteq> sa"
  shows "\<exists>N'. trans_loop_s dd ja sa na js st mn
                = (st[na := ArrCell N'],
                   (case trans_loop dd J (array_at st sa) js N mn of
                      Inl e \<Rightarrow> Inl e | Inr am \<Rightarrow> Inr (snd am)))
             \<and> (\<forall>a m. trans_loop dd J (array_at st sa) js N mn = Inr (a, m) \<longrightarrow> N' = a)"
  using assms(1-4)
proof (induction js arbitrary: st N mn)
  case Nil
  have "st[na := ArrCell N] = st" using Nil by (simp add: same_cell)
  then show ?case by (intro exI [of _ N]) simp
next
  case (Cons j js)
  have ja: "array_at st ja = J" by (rule array_at_arr [OF Cons.prems(1,2)])
  show ?case
  proof (cases "trans_cell dd J (array_at st sa) j")
    case (Inl e)
    have "st[na := ArrCell N] = st" using Cons.prems by (simp add: same_cell)
    with Inl show ?thesis by (intro exI [of _ N]) (simp add: ja)
  next
    case (Inr val)
    define N1 where "N1 = (if val < i8 (dd + 1) then N[j := val] else N)"
    define st1 where "st1 = st[na := ArrCell N1]"
    have w: "(if val < i8 (dd + 1) then store_int st na j val else st) = st1"
      using Cons.prems by (simp add: st1_def N1_def store_int_arr same_cell)
    have st1: "ja < length st1" "st1 ! ja = ArrCell J" "na < length st1" "st1 ! na = ArrCell N1"
      using Cons.prems assms(5) by (simp_all add: st1_def)
    have sa: "array_at st1 sa = array_at st sa"
      unfolding st1_def using assms(6) by (intro array_at_update_other) simp
    from Cons.IH [OF st1, of "if val < mn then val else mn"] obtain N' where
      run: "trans_loop_s dd ja sa na js st1 (if val < mn then val else mn)
              = (st1[na := ArrCell N'],
                 (case trans_loop dd J (array_at st sa) js N1 (if val < mn then val else mn) of
                    Inl e \<Rightarrow> Inl e | Inr am \<Rightarrow> Inr (snd am)))"
      and res: "\<forall>a m. trans_loop dd J (array_at st sa) js N1 (if val < mn then val else mn)
                  = Inr (a, m) \<longrightarrow> N' = a"
      unfolding sa by blast
    have "st1[na := ArrCell N'] = st[na := ArrCell N']" by (simp add: st1_def)
    with run res Inr show ?thesis
      by (intro exI [of _ N']) (simp add: ja w N1_def)
  qed
qed

text \<open>
  One transition. The state handed in lies at \<open>sa\<close>, the table at \<open>ja\<close>; the successor is
  put behind the cells of the store, the table is overwritten and nothing else changes.
\<close>

lemma transition_s_sim:
  assumes "ja < length st" and "st ! ja = ArrCell J" and "length J = length jmp"
    and "sa < length st" and "sa \<noteq> ja"
  shows "\<exists>st'. fst (transition_s st (Nfa_s q dd ja) (State_s off sa) r) = st'
      \<and> snd (transition_s st (Nfa_s q dd ja) (State_s off sa) r)
          = (case transition (Nfa q dd jmp) (State off (array_at st sa)) r of
               Inl e \<Rightarrow> Inl e
             | Inr sm \<Rightarrow> Inr (State_s (offset (fst sm)) (length st), snd sm))
      \<and> length st \<le> length st'
      \<and> (\<forall>a<length st. a \<noteq> ja \<longrightarrow> st' ! a = st ! a)
      \<and> (\<exists>J'. st' ! ja = ArrCell J' \<and> length J' = length J)
      \<and> (\<forall>ns mn. transition (Nfa q dd jmp) (State off (array_at st sa)) r = Inr (ns, mn)
            \<longrightarrow> length st' = Suc (length st) \<and> st' ! length st = ArrCell (arr ns))"
proof (cases "i8 (i8 (2 * dd) + 1) < 0")
  case True
  then show ?thesis
    using assms(2) by (simp add: transition_s_def transition_def newState_s_def newState_def)
next
  case False
  let ?v = "i8 (dd + 1)"
  define N where "N = replicate (nat (i8 (i8 (2 * dd) + 1))) ?v"
  define st1 where "st1 = st @ [ArrCell N]"
  define J2 where "J2 = fill_jump q r off (length J) ?v J"
  define st2 where "st2 = st1[ja := ArrCell J2]"
  have ns: "newState_s st dd (off + 1) = (st1, Inr (State_s (off + 1) (length st)))"
    using False by (simp add: newState_s_def new_array_def Let_def st1_def N_def)
  have pns: "newState dd (off + 1) = Inr (State (off + 1) N)"
    using False by (simp add: newState_def Let_def N_def)
  have st1: "ja < length st1" "st1 ! ja = ArrCell J"
    using assms(1,2) by (simp_all add: st1_def nth_append)
  have j1: "array_at st1 ja = J" by (rule array_at_arr [OF st1])
  have fj: "fill_jump_s q r off ja (length J) ?v st1 = st2"
    unfolding st2_def J2_def by (rule fill_jump_s_arr [OF st1])
  have J2: "J2 = fill_jump q r off (length jmp) ?v jmp"
    unfolding J2_def by (rule fill_jump_whole [OF assms(3)])
  have st2: "ja < length st2" "st2 ! ja = ArrCell J2" "length st < length st2"
    "st2 ! length st = ArrCell N" "length st \<noteq> ja" "length st \<noteq> sa"
    using assms(1,4) by (simp_all add: st2_def st1_def nth_append)
  have n2: "array_at st2 (length st) = N" by (rule array_at_arr [OF st2(3,4)])
  have sa2: "array_at st2 sa = array_at st sa"
    using assms(4,5) by (simp add: st2_def st1_def array_at_def nth_append)
  from trans_loop_s_arr [OF st2(1,2,3,4,5,6), of dd "[0..<length N]" ?v] obtain N' where
    run: "trans_loop_s dd ja sa (length st) [0..<length N] st2 ?v
            = (st2[length st := ArrCell N'],
               (case trans_loop dd J2 (array_at st sa) [0..<length N] N ?v of
                  Inl e \<Rightarrow> Inl e | Inr am \<Rightarrow> Inr (snd am)))"
    and res: "\<forall>a m. trans_loop dd J2 (array_at st sa) [0..<length N] N ?v = Inr (a, m) \<longrightarrow> N' = a"
    unfolding sa2 by blast
  define st3 where "st3 = st2[length st := ArrCell N']"
  have t_s: "transition_s st (Nfa_s q dd ja) (State_s off sa) r
      = (st3, (case trans_loop dd J2 (array_at st sa) [0..<length N] N ?v of
                 Inl e \<Rightarrow> Inl e
               | Inr am \<Rightarrow> Inr (State_s (off + 1) (length st), snd am)))"
    by (simp add: transition_s_def ns j1 fj n2 run st3_def Let_def split: sum.splits)
  have t: "transition (Nfa q dd jmp) (State off (array_at st sa)) r
      = (case trans_loop dd J2 (array_at st sa) [0..<length N] N ?v of
           Inl e \<Rightarrow> Inl e
         | Inr am \<Rightarrow> Inr (State (off + 1) (fst am), snd am))"
    by (simp add: transition_def pns J2 Let_def split: sum.splits prod.splits)
  have keep: "st3 ! a = st ! a" if "a < length st" "a \<noteq> ja" for a
    using that by (simp add: st3_def st2_def st1_def nth_append)
  have tab: "st3 ! ja = ArrCell J2" "length J2 = length J"
    using st2 by (simp_all add: st3_def J2_def)
  have new: "length st3 = Suc (length st)" "st3 ! length st = ArrCell N'"
    by (simp_all add: st3_def st2_def st1_def)
  show ?thesis
  proof (intro exI [of _ st3] conjI allI impI)
    show "fst (transition_s st (Nfa_s q dd ja) (State_s off sa) r) = st3" by (simp add: t_s)
    show "snd (transition_s st (Nfa_s q dd ja) (State_s off sa) r)
          = (case transition (Nfa q dd jmp) (State off (array_at st sa)) r of
               Inl e \<Rightarrow> Inl e
             | Inr sm \<Rightarrow> Inr (State_s (offset (fst sm)) (length st), snd sm))"
      by (simp add: t_s t split: sum.splits)
    show "length st \<le> length st3" by (simp add: new)
    show "st3 ! a = st ! a" if "a < length st" "a \<noteq> ja" for a by (rule keep [OF that])
    show "\<exists>J'. st3 ! ja = ArrCell J' \<and> length J' = length J" using tab by blast
    show "length st3 = Suc (length st)" by (rule new)
    show "st3 ! length st = ArrCell (arr ns')"
      if "transition (Nfa q dd jmp) (State off (array_at st sa)) r = Inr (ns', mn)" for ns' mn
      using that res by (auto simp: t new split: sum.splits)
  qed
qed
subsection \<open>Frames on the store and frames of values\<close>

text \<open>
  A node value of the store stands for a node of the trie, a frame of the store for a
  frame of values: the same entry, a child map that lays out the children, the same
  offset, and the cells of the state in an array of the store that is not the jump table.
  The layout is that of the store \<open>st0\<close> in which the search began.
\<close>

definition node_rel :: "store \<Rightarrow> node_s \<Rightarrow> node \<Rightarrow> bool" where
  "node_rel st0 xs x = (lays_out st0 (child_s xs) x \<and> data_s xs = data x)"

definition frame_rel :: "store \<Rightarrow> store \<Rightarrow> addr \<Rightarrow> frame_s \<Rightarrow> frame \<Rightarrow> bool" where
  "frame_rel st0 st ja fs f =
     (node_rel st0 (fnode_s fs) (fnode f) \<and> offset_s (fstate_s fs) = offset (fstate f)
      \<and> arr_s (fstate_s fs) < length st \<and> arr_s (fstate_s fs) \<noteq> ja
      \<and> st ! arr_s (fstate_s fs) = ArrCell (arr (fstate f)))"

definition stacks_rel :: "store \<Rightarrow> store \<Rightarrow> addr \<Rightarrow> frame_s list list \<Rightarrow> frame list list \<Rightarrow> bool" where
  "stacks_rel st0 st ja ss stacks = list_all2 (list_all2 (frame_rel st0 st ja)) ss stacks"

lemma frame_rel_stable:
  assumes "frame_rel st0 st ja fs f" and "length st \<le> length st'"
    and "\<forall>a<length st. a \<noteq> ja \<longrightarrow> st' ! a = st ! a"
  shows "frame_rel st0 st' ja fs f"
  using assms by (auto simp: frame_rel_def)

lemma stacks_rel_stable:
  assumes "stacks_rel st0 st ja ss stacks" and "length st \<le> length st'"
    and "\<forall>a<length st. a \<noteq> ja \<longrightarrow> st' ! a = st ! a"
  shows "stacks_rel st0 st' ja ss stacks"
  using assms(1) unfolding stacks_rel_def
  by (rule list_all2_mono) (erule list_all2_mono, erule frame_rel_stable [OF _ assms(2,3)])

lemma stacks_rel_length: "stacks_rel st0 st ja ss stacks \<Longrightarrow> length ss = length stacks"
  by (simp add: stacks_rel_def list_all2_lengthD)

lemma stacks_rel_nth:
  "stacks_rel st0 st ja ss stacks \<Longrightarrow> i < length stacks
     \<Longrightarrow> list_all2 (frame_rel st0 st ja) (ss ! i) (stacks ! i)"
  by (simp add: stacks_rel_def list_all2_nthD2)

lemma stacks_rel_update:
  "stacks_rel st0 st ja ss stacks \<Longrightarrow> list_all2 (frame_rel st0 st ja) fs' fs
     \<Longrightarrow> stacks_rel st0 st ja (ss[i := fs']) (stacks[i := fs])"
  by (simp add: stacks_rel_def list_all2_update_cong)

lemma derefs_same_edges:
  assumes "grown st0 st" and "same_edges st0 hs cs"
  shows "\<exists>xs. derefs st (map snd hs) = Inr xs \<and> list_all2 (node_rel st0) xs (map snd cs)"
  using assms(2)
proof (induction hs arbitrary: cs)
  case Nil
  then show ?case by simp
next
  case (Cons h hs)
  from Cons.prems obtain c cs' where cs: "cs = c # cs'" by (cases cs) simp_all
  from Cons.prems have h: "lays_out st0 (snd h) (snd c)" "same_edges st0 hs cs'"
    by (simp_all add: cs same_edges_Cons)
  from lays_out_deref [OF grown_lays_out [OF assms(1) h(1)]]
  have d: "deref st (snd h) = Inr (Node_s (snd h) (data (snd c)))" .
  from Cons.IH [OF h(2)] obtain xs where xs: "derefs st (map snd hs) = Inr xs"
    "list_all2 (node_rel st0) xs (map snd cs')" by blast
  from h(1) have "node_rel st0 (Node_s (snd h) (data (snd c))) (snd c)" by (simp add: node_rel_def)
  with xs d show ?case by (simp add: cs)
qed

lemma expand_loop_s_sim:
  assumes "grown st0 st"
  shows "list_all2 (node_rel st0) ss stack \<Longrightarrow> sum_list (map nsize stack) < fuel
     \<Longrightarrow> expand_loop_s fuel st ss results limit = Some (Inr (expand_loop stack results limit))"
proof (induction fuel arbitrary: ss stack results)
  case 0
  then show ?case by simp
next
  case (Suc fuel)
  show ?case
  proof (cases stack)
    case Nil
    with Suc.prems show ?thesis by simp
  next
    case (Cons x rest)
    with Suc.prems(1) obtain xs rests where ss: "ss = xs # rests"
      and x: "node_rel st0 xs x" and rest: "list_all2 (node_rel st0) rests rest"
      by (auto simp: list_all2_Cons2)
    from x have lay: "lays_out st0 (child_s xs) x" and dt: "data_s xs = data x"
      by (simp_all add: node_rel_def)
    have "children_at st (child_s xs) = children_at st0 (child_s xs)"
      by (simp add: children_at_def grown_node_at [OF assms])
    with derefs_same_edges [OF assms lays_out_children [OF lay]]
    obtain ys where ys: "derefs st (map snd (children_at st (child_s xs))) = Inr ys"
      "list_all2 (node_rel st0) ys (map snd (child x))" by auto
    have rel: "list_all2 (node_rel st0) (rev ys @ rests) (rev (map snd (child x)) @ rest)"
      using ys(2) rest by (intro list_all2_appendI) (simp_all add: list_all2_rev)
    have "sum_list (map nsize (rev (map snd (child x)))) < nsize x"
      by (cases x) (simp add: rev_map [symmetric] sum_list_rev comp_def del: rev_map)
    with Suc.prems(2) have fuel: "sum_list (map nsize (rev (map snd (child x)) @ rest)) < fuel"
      by (simp add: Cons)
    note step = Suc.IH [OF rel fuel]
    show ?thesis
      by (cases "data x") (simp_all add: ss Cons dt ys(1) step)
  qed
qed

lemma expandSuffixes_s_sim:
  assumes "grown st0 st" and "node_rel st0 xs x" and "nsize x < fuel"
  shows "expandSuffixes_s fuel st xs limit = Some (Inr (expandSuffixes x limit))"
  using expand_loop_s_sim [OF assms(1), of "[xs]" "[x]" fuel "[]" limit] assms(2,3)
  by (simp add: expandSuffixes_s_def expandSuffixes_def)

lemma doNotExpandSuffixes_s_sim:
  assumes "node_rel st0 xs x"
  shows "doNotExpandSuffixes_s st xs limit = Some (Inr (doNotExpandSuffixes x limit))"
  using assms by (simp add: doNotExpandSuffixes_s_def doNotExpandSuffixes_def node_rel_def)

lemma accepts_s_sim:
  assumes "frame_rel st0 st ja fs f"
  shows "accepts_s st (Nfa_s q dd ja) (fstate_s fs) = accepts (Nfa q dd jmp) (fstate f)"
proof -
  from assms have "array_at st (arr_s (fstate_s fs)) = arr (fstate f)"
    and "offset_s (fstate_s fs) = offset (fstate f)"
    by (simp_all add: frame_rel_def array_at_arr)
  then show ?thesis by (simp add: accepts_s_def accepts_def)
qed
text \<open>
  The store in the middle of a search that began on \<open>st0\<close>: \<open>st0\<close> with arrays behind it, one
  of them the jump table, of the length that \<^verbatim>\<open>newNfa\<close> gave it.
\<close>

definition search_store :: "store \<Rightarrow> store \<Rightarrow> addr \<Rightarrow> nat \<Rightarrow> bool" where
  "search_store st0 st ja len =
     (grown st0 st \<and> length st0 \<le> ja \<and> ja < length st
      \<and> (\<exists>J. st ! ja = ArrCell J \<and> length J = len))"

lemma push_children_s_sim:
  assumes "search_store st0 st ja (length jmp)"
    and "sa < length st" and "sa \<noteq> ja" and "st ! sa = ArrCell A"
    and "same_edges st0 hs cs" and "stacks_rel st0 st ja ss stacks"
  shows "\<exists>st'. fst (push_children_s (Nfa_s q dd ja) (State_s off sa) hs st ss) = st'
     \<and> search_store st0 st' ja (length jmp) \<and> length st \<le> length st'
     \<and> (\<forall>a<length st. a \<noteq> ja \<longrightarrow> st' ! a = st ! a)
     \<and> (case push_children (Nfa q dd jmp) (State off A) cs stacks of
          Inl e \<Rightarrow> snd (push_children_s (Nfa_s q dd ja) (State_s off sa) hs st ss) = Inl e
        | Inr stacks' \<Rightarrow>
            (\<exists>ss'. snd (push_children_s (Nfa_s q dd ja) (State_s off sa) hs st ss) = Inr ss'
               \<and> stacks_rel st0 st' ja ss' stacks'))"
  using assms(1,2,4,5,6)
proof (induction hs arbitrary: cs st ss stacks)
  case Nil
  then show ?case by simp
next
  case (Cons h hs)
  from Cons.prems(4) obtain c cs' where cs: "cs = c # cs'" by (cases cs) simp_all
  obtain r a where h: "h = (r, a)" by (cases h)
  obtain r' x where c: "c = (r', x)" by (cases c)
  from Cons.prems(4) have r': "r' = r" and lay: "lays_out st0 a x" and edges: "same_edges st0 hs cs'"
    by (simp_all add: cs h c same_edges_Cons)
  from Cons.prems(1) obtain J where g: "grown st0 st" and ja: "length st0 \<le> ja" "ja < length st"
    and J: "st ! ja = ArrCell J" "length J = length jmp"
    by (auto simp: search_store_def)
  have A: "array_at st sa = A" by (rule array_at_arr [OF Cons.prems(2,3)])
  define T where "T = transition (Nfa q dd jmp) (State off A) r"
  define st1 where "st1 = fst (transition_s st (Nfa_s q dd ja) (State_s off sa) r)"
  from transition_s_sim [OF ja(2) J Cons.prems(2) assms(3), of q dd off r]
  have res: "snd (transition_s st (Nfa_s q dd ja) (State_s off sa) r)
          = (case T of Inl e \<Rightarrow> Inl e
             | Inr sm \<Rightarrow> Inr (State_s (offset (fst sm)) (length st), snd sm))"
    and len1: "length st \<le> length st1"
    and keep1: "\<forall>a<length st. a \<noteq> ja \<longrightarrow> st1 ! a = st ! a"
    and tab1: "\<exists>J'. st1 ! ja = ArrCell J' \<and> length J' = length J"
    and new1: "\<forall>ns mn. T = Inr (ns, mn)
                 \<longrightarrow> length st1 = Suc (length st) \<and> st1 ! length st = ArrCell (arr ns)"
    unfolding A T_def st1_def by blast+
  have t_s: "transition_s st (Nfa_s q dd ja) (State_s off sa) r
               = (st1, case T of Inl e \<Rightarrow> Inl e
                       | Inr sm \<Rightarrow> Inr (State_s (offset (fst sm)) (length st), snd sm))"
    using res by (simp add: st1_def prod_eq_iff)
  have g1: "grown st0 st1"
    unfolding st1_def using transition_s_grown [OF g, of "Nfa_s q dd ja"] ja(1) by simp
  have ss1: "search_store st0 st1 ja (length jmp)"
    using g1 ja len1 tab1 J(2) by (auto simp: search_store_def)
  have sa1: "sa < length st1" "st1 ! sa = ArrCell A"
    using Cons.prems(2,3) len1 keep1 assms(3) by auto
  have rel1: "stacks_rel st0 st1 ja ss stacks"
    by (rule stacks_rel_stable [OF Cons.prems(5) len1 keep1])
  have finish: ?case
    if "push_children (Nfa q dd jmp) (State off A) cs stacks = Inl e"
      "push_children_s (Nfa_s q dd ja) (State_s off sa) (h # hs) st ss = (st1, Inl e)" for e
    using that ss1 len1 keep1 by simp
  have continue: ?case
    if pure: "push_children (Nfa q dd jmp) (State off A) cs stacks
              = push_children (Nfa q dd jmp) (State off A) cs' stacks1"
      and store: "push_children_s (Nfa_s q dd ja) (State_s off sa) (h # hs) st ss
              = push_children_s (Nfa_s q dd ja) (State_s off sa) hs st1 ss1"
      and rel: "stacks_rel st0 st1 ja ss1 stacks1" for ss1 stacks1
  proof -
    from Cons.IH [OF ss1 sa1 edges rel] obtain st' where
      st': "fst (push_children_s (Nfa_s q dd ja) (State_s off sa) hs st1 ss1) = st'"
        "search_store st0 st' ja (length jmp)" "length st1 \<le> length st'"
        "\<forall>a<length st1. a \<noteq> ja \<longrightarrow> st' ! a = st1 ! a"
        "case push_children (Nfa q dd jmp) (State off A) cs' stacks1 of
           Inl e \<Rightarrow> snd (push_children_s (Nfa_s q dd ja) (State_s off sa) hs st1 ss1) = Inl e
         | Inr stacks' \<Rightarrow>
             (\<exists>ss'. snd (push_children_s (Nfa_s q dd ja) (State_s off sa) hs st1 ss1) = Inr ss'
                \<and> stacks_rel st0 st' ja ss' stacks')"
      by blast
    have "\<forall>a<length st. a \<noteq> ja \<longrightarrow> st' ! a = st ! a"
      using st'(4) keep1 len1 by auto
    moreover have "length st \<le> length st'" using st'(3) len1 by simp
    ultimately show ?thesis
      unfolding pure store using st'(1,2,5) by (intro exI [of _ st']) simp
  qed
  show ?case
  proof (cases T)
    case (Inl e)
    show ?thesis
      by (rule finish [of e]) (simp_all add: cs h c r' T_def [symmetric] Inl t_s)
  next
    case (Inr sm)
    obtain ns mn where sm: "sm = (ns, mn)" by (cases sm)
    from new1 Inr sm have new: "length st1 = Suc (length st)" "st1 ! length st = ArrCell (arr ns)"
      by simp_all
    show ?thesis
    proof (cases "mn < i8 (dd + 1)")
      case False
      show ?thesis
        by (rule continue [OF _ _ rel1])
           (simp_all add: cs h c r' T_def [symmetric] Inr sm t_s False)
    next
      case True
      show ?thesis
      proof (cases "0 \<le> mn \<and> mn < int (length stacks)")
        case bad: False
        show ?thesis
          by (rule finish [of IndexOutOfRange])
             (use bad True stacks_rel_length [OF Cons.prems(5)] in
              \<open>auto simp: cs h c r' T_def [symmetric] Inr sm t_s\<close>)
      next
        case ok: True
        from lays_out_deref [OF grown_lays_out [OF g1 lay]]
        have d: "deref st1 a = Inr (Node_s a (data x))" .
        define fs where "fs = Frame_s (Node_s a (data x)) (State_s (offset ns) (length st))"
        have "frame_rel st0 st1 ja fs (Frame x ns)"
          using lay new ja(2) by (simp add: frame_rel_def node_rel_def fs_def)
        moreover have "list_all2 (frame_rel st0 st1 ja) (ss ! nat mn) (stacks ! nat mn)"
        proof (rule stacks_rel_nth [OF rel1])
          from ok show "nat mn < length stacks" by linarith
        qed
        ultimately have "list_all2 (frame_rel st0 st1 ja) (fs # ss ! nat mn) (Frame x ns # stacks ! nat mn)"
          by simp
        from stacks_rel_update [OF rel1 this]
        have rel: "stacks_rel st0 st1 ja (ss[nat mn := fs # ss ! nat mn])
                     (stacks[nat mn := Frame x ns # stacks ! nat mn])" .
        show ?thesis
          by (rule continue [OF _ _ rel])
             (use ok True stacks_rel_length [OF Cons.prems(5)] in
              \<open>simp_all add: cs h c r' T_def [symmetric] Inr sm t_s d fs_def\<close>)
      qed
    qed
  qed
qed
subsection \<open>The traversal on the store and on values\<close>

lemma suggest_loop_s_sim:
  assumes proc: "\<And>st xs x l. \<lbrakk>grown st0 st; node_rel st0 xs x; nsize x < fuelP\<rbrakk>
                   \<Longrightarrow> proc_s st xs l = Some (Inr (proc x l))"
  shows "search_store st0 st ja (length jmp) \<Longrightarrow> stacks_rel st0 st ja ss stacks
     \<Longrightarrow> length stacks - i + frames_size stacks < fuel \<Longrightarrow> frames_size stacks < fuelP
     \<Longrightarrow> snd (suggest_loop_s fuel proc_s (Nfa_s q dd ja) limit i st ss results)
           = Some (suggest_loop proc (Nfa q dd jmp) limit i stacks results)"
proof (induction fuel arbitrary: i st ss stacks results)
  case 0
  then show ?case by simp
next
  case (Suc fuel)
  note len = stacks_rel_length [OF Suc.prems(2)]
  note pure = suggest_loop.simps [of proc "Nfa q dd jmp" limit i stacks results]
  show ?case
  proof (cases "length stacks \<le> i")
    case True
    then show ?thesis by (simp add: len pure)
  next
    case False
    then have i: "i < length stacks" by simp
    note rel_i = stacks_rel_nth [OF Suc.prems(2) i]
    show ?thesis
    proof (cases "stacks ! i")
      case Nil
      with rel_i have e: "ss ! i = []" by simp
      from Suc.prems(3) i have "length stacks - Suc i + frames_size stacks < fuel" by linarith
      from Suc.IH [OF Suc.prems(1,2) this Suc.prems(4)] False Nil e show ?thesis
        by (simp add: len pure)
    next
      case (Cons f rest)
      with rel_i obtain fs rests where top: "ss ! i = fs # rests"
        and f: "frame_rel st0 st ja fs f" and rest: "list_all2 (frame_rel st0 st ja) rests rest"
        by (auto simp: list_all2_Cons2)
      from Suc.prems(1) have g: "grown st0 st" by (simp add: search_store_def)
      from f have node: "node_rel st0 (fnode_s fs) (fnode f)"
        and sa: "arr_s (fstate_s fs) < length st" "arr_s (fstate_s fs) \<noteq> ja"
          "st ! arr_s (fstate_s fs) = ArrCell (arr (fstate f))"
        and off: "offset_s (fstate_s fs) = offset (fstate f)"
        by (simp_all add: frame_rel_def)
      have acc: "accepts_s st (Nfa_s q dd ja) (fstate_s fs) = accepts (Nfa q dd jmp) (fstate f)"
        by (rule accepts_s_sim [OF f])
      note pop = pop_frames_size [OF i Cons]
      have rel_pop: "stacks_rel st0 st ja (ss[i := rests]) (stacks[i := rest])"
        by (rule stacks_rel_update [OF Suc.prems(2) rest])
      have edges: "same_edges st0 (children_at st (child_s (fnode_s fs))) (child (fnode f))"
      proof -
        have "children_at st (child_s (fnode_s fs)) = children_at st0 (child_s (fnode_s fs))"
          by (simp add: children_at_def grown_node_at [OF g])
        with lays_out_children [of st0 "child_s (fnode_s fs)" "fnode f"] node show ?thesis
          by (simp add: node_rel_def)
      qed
      have push: "snd (case push_children_s (Nfa_s q dd ja) (fstate_s fs)
                           (children_at st (child_s (fnode_s fs))) st (ss[i := rests]) of
                    (st1, Inl e) \<Rightarrow> (st1, Some (Inl e))
                  | (st1, Inr stacks') \<Rightarrow>
                      suggest_loop_s fuel proc_s (Nfa_s q dd ja) limit i st1 stacks' res)
                = Some (case push_children (Nfa q dd jmp) (fstate f) (child (fnode f))
                               (stacks[i := rest]) of
                          Inl e \<Rightarrow> Inl e
                        | Inr stacks' \<Rightarrow> suggest_loop proc (Nfa q dd jmp) limit i stacks' res)"
        for res
      proof -
        have fsf: "fstate_s fs = State_s (offset (fstate f)) (arr_s (fstate_s fs))"
          using off by (cases "fstate_s fs") simp
        have ff: "fstate f = State (offset (fstate f)) (arr (fstate f))" by simp
        define P where "P = push_children_s (Nfa_s q dd ja) (fstate_s fs)
            (children_at st (child_s (fnode_s fs))) st (ss[i := rests])"
        from push_children_s_sim [OF Suc.prems(1) sa(1,2,3) edges rel_pop, of q dd "offset (fstate f)"]
        obtain st' where st': "fst P = st'" "search_store st0 st' ja (length jmp)"
          and out: "case push_children (Nfa q dd jmp) (fstate f) (child (fnode f)) (stacks[i := rest]) of
              Inl e \<Rightarrow> snd P = Inl e
            | Inr stacks' \<Rightarrow> (\<exists>ss'. snd P = Inr ss' \<and> stacks_rel st0 st' ja ss' stacks')"
          unfolding P_def fsf [symmetric] ff [symmetric] by blast
        show ?thesis
        proof (cases "push_children (Nfa q dd jmp) (fstate f) (child (fnode f)) (stacks[i := rest])")
          case (Inl e)
          with out have "P = (st', Inl e)" using st'(1) by (simp add: prod_eq_iff)
          with Inl show ?thesis unfolding P_def [symmetric] by simp
        next
          case (Inr stacks')
          with out obtain ss' where ss': "snd P = Inr ss'" "stacks_rel st0 st' ja ss' stacks'"
            by auto
          then have P: "P = (st', Inr ss')" using st'(1) by (simp add: prod_eq_iff)
          from pop_push_frames_size [OF i Cons Inr]
          have less: "frames_size stacks' < frames_size stacks" "length stacks' = length stacks" .
          with Suc.prems(3,4) have "length stacks' - i + frames_size stacks' < fuel"
            "frames_size stacks' < fuelP" by linarith+
          from Suc.IH [OF st'(2) ss'(2) this] Inr show ?thesis
            unfolding P_def [symmetric] P by simp
        qed
      qed
      show ?thesis
      proof (cases "accepts (Nfa q dd jmp) (fstate f)")
        case rej: False
        with False Cons top acc push [of results] show ?thesis
          by (simp add: len pure)
      next
        case True
        from pop Suc.prems(4) have "nsize (fnode f) < fuelP" by linarith
        from proc [OF g node this]
        have pr: "proc_s st (fnode_s fs) (limit - int (length results))
                    = Some (Inr (proc (fnode f) (limit - int (length results))))" .
        obtain res halt where rh: "proc (fnode f) (limit - int (length results)) = (res, halt)"
          by (cases "proc (fnode f) (limit - int (length results))")
        show ?thesis
        proof (cases "limit \<le> int (length (results @ res))")
          case full: True
          with False Cons top acc True pr rh show ?thesis by (simp add: len pure)
        next
          case more: False
          show ?thesis
          proof (cases halt)
            case halted: True
            have "0 < nsize (fnode f)" by (cases "fnode f") simp
            with pop Suc.prems(3,4) have "length (stacks[i := rest]) - i
                + frames_size (stacks[i := rest]) < fuel" "frames_size (stacks[i := rest]) < fuelP"
              by simp_all
            from Suc.IH [OF Suc.prems(1) rel_pop this] False Cons top acc True pr rh more halted
            show ?thesis by (simp add: len pure)
          next
            case goes: False
            with False Cons top acc True pr rh more push [of "results @ res"] show ?thesis
              by (simp add: len pure)
          qed
        qed
      qed
    qed
  qed
qed
lemma i8_range: "- 128 \<le> i8 x" "i8 x \<le> 127"
  by (simp_all add: i8_def)

lemma frames_size_start:
  "0 < k \<Longrightarrow> frames_size ((replicate k [])[0 := [Frame x s]]) = nsize x"
  using frames_size_update [of 0 "replicate k []" "[Frame x s]"]
  by (simp add: frames_size_def del: nsize.simps)

lemma suggest_s_sim:
  assumes proc: "\<And>st xs x l. \<lbrakk>grown st0 st; node_rel st0 xs x; nsize x < fuel\<rbrakk>
                   \<Longrightarrow> proc_s st xs l = Some (Inr (proc x l))"
    and node: "node_rel st0 xs x" and fuel: "128 + nsize x < fuel"
  shows "snd (suggest_s fuel proc_s st0 xs runes dd limit) = Some (suggest proc x runes dd limit)"
proof (cases "3 * dd + 2 < 0")
  case True
  then show ?thesis by (simp add: suggest_s_def suggest_def newNfa_s_def newNfa_def)
next
  case nfa: False
  define J0 where "J0 = replicate (nat (3 * dd + 2)) (0::int)"
  define st1 where "st1 = st0 @ [ArrCell J0]"
  have nn: "newNfa_s st0 runes dd = (st1, Inr (Nfa_s runes dd (length st0)))"
    using nfa by (simp add: newNfa_s_def new_array_def Let_def st1_def J0_def)
  have pnn: "newNfa runes dd = Inr (Nfa runes dd J0)"
    using nfa by (simp add: newNfa_def Let_def J0_def)
  show ?thesis
  proof (cases "i8 (i8 (2 * dd) + 1) < 0")
    case True
    then show ?thesis
      by (simp add: suggest_s_def suggest_def nn pnn start_s_def start_def newState_s_def
            newState_def)
  next
    case False
    define N where "N = replicate (nat (i8 (i8 (2 * dd) + 1))) (i8 (dd + 1))"
    define st2 where "st2 = st1 @ [ArrCell N]"
    have ns: "newState_s st1 dd (i8 (- (2 * dd))) = (st2, Inr (State_s (i8 (- (2 * dd))) (length st1)))"
      using False by (simp add: newState_s_def new_array_def Let_def st2_def N_def)
    have pns: "newState dd (i8 (- (2 * dd))) = Inr (State (i8 (- (2 * dd))) N)"
      using False by (simp add: newState_def Let_def N_def)
    have n2: "array_at st2 (length st1) = N" by (simp add: array_at_def st2_def)
    show ?thesis
    proof (cases "0 \<le> i8 (2 * dd) \<and> i8 (2 * dd) < int (length N)")
      case bad: False
      then show ?thesis
        by (auto simp: suggest_s_def suggest_def nn pnn start_s_def start_def ns pns n2 Let_def)
    next
      case k: True
      define N0 where "N0 = N[nat (i8 (2 * dd)) := 0]"
      define st3 where "st3 = st2[length st1 := ArrCell N0]"
      have w: "store_int st2 (length st1) (nat (i8 (2 * dd))) 0 = st3"
        by (simp add: store_int_def n2 st3_def N0_def)
      have ss: "start_s st1 (Nfa_s runes dd (length st0))
                  = (st3, Inr (State_s (i8 (- (2 * dd))) (length st1)))"
        using k by (simp add: start_s_def ns n2 w Let_def)
      have ps: "start (Nfa runes dd J0) = Inr (State (i8 (- (2 * dd))) N0)"
        using k by (simp add: start_def pns Let_def N0_def)
      show ?thesis
      proof (cases "0 < i8 (dd + 1)")
        case none: False
        then show ?thesis
          by (auto simp: suggest_s_def suggest_def nn pnn ss ps Let_def)
      next
        case some: True
        define k where "k = nat (i8 (dd + 1))"
        have k: "0 < k" "k \<le> 127" using some i8_range(2) [of "dd + 1"] by (simp_all add: k_def)
        define fs0 where "fs0 = Frame_s xs (State_s (i8 (- (2 * dd))) (length st1))"
        define f0 where "f0 = Frame x (State (i8 (- (2 * dd))) N0)"
        have st3: "st3 = st0 @ [ArrCell J0, ArrCell N0]"
          by (simp add: st3_def st2_def st1_def list_update_append)
        have "grown st0 st3" unfolding grown_def st3
          by (rule exI [of _ "[J0, N0]"]) simp
        then have store: "search_store st0 st3 (length st0) (length J0)"
          by (simp add: search_store_def st3)
        have "frame_rel st0 st3 (length st0) fs0 f0"
          using node by (simp add: frame_rel_def fs0_def f0_def st3 st1_def nth_append)
        then have "list_all2 (frame_rel st0 st3 (length st0)) [fs0] [f0]" by simp
        moreover have "stacks_rel st0 st3 (length st0) (replicate k []) (replicate k [])"
          by (simp add: stacks_rel_def list_all2_conv_all_nth)
        ultimately have rel: "stacks_rel st0 st3 (length st0)
            ((replicate k [])[0 := [fs0]]) ((replicate k [])[0 := [f0]])"
          by (intro stacks_rel_update)
        have size: "frames_size ((replicate k [])[0 := [f0]]) = nsize x"
          unfolding f0_def by (rule frames_size_start [OF k(1)])
        from fuel k(2) have m: "length ((replicate k [])[0 := [f0]]) - 0
            + frames_size ((replicate k [])[0 := [f0]]) < fuel"
          "frames_size ((replicate k [])[0 := [f0]]) < fuel"
          by (simp_all add: size del: nsize.simps)
        from suggest_loop_s_sim [of st0 fuel proc_s proc, OF proc store rel m, of runes dd limit "[]"]
        have "snd (suggest_loop_s fuel proc_s (Nfa_s runes dd (length st0)) limit 0 st3
                     ((replicate k [])[0 := [fs0]]) [])
              = Some (suggest_loop proc (Nfa runes dd J0) limit 0 ((replicate k [])[0 := [f0]]) [])"
          by simp
        with some show ?thesis
          by (simp add: suggest_s_def suggest_def nn pnn ss ps Let_def k_def fs0_def f0_def)
      qed
    qed
  qed
qed

lemma walk_nsize: "walk x path = Some y \<Longrightarrow> nsize y \<le> nsize x"
proof (induction path arbitrary: x)
  case Nil
  then show ?case by simp
next
  case (Cons r path)
  then obtain z where z: "map_of (child x) r = Some z" and below: "walk z path = Some y"
    by (auto split: option.splits)
  from z have "(r, z) \<in> set (child x)" by (rule map_of_SomeD)
  then have "nsize z \<in> set (map (\<lambda>kx. nsize (snd kx)) (child x))" by force
  then have "nsize z \<le> sum_list (map (\<lambda>kx. nsize (snd kx)) (child x))"
    by (intro member_le_sum_list) simp_all
  with nsize_children [of x] Cons.IH [OF below] show ?case by linarith
qed

lemma exact_prefix_search_s_sim:
  assumes proc: "\<And>st xs x l. \<lbrakk>grown st0 st; node_rel st0 xs x; nsize x < fuel\<rbrakk>
                   \<Longrightarrow> proc_s st xs l = Some (Inr (proc x l))"
    and lay: "lays_out st0 p (root t)" and fuel: "128 + nsize (root t) < fuel"
  shows "snd (exact_prefix_search_s fuel proc_s spare st0 p key k dd n)
           = Some (exact_prefix_search proc spare t key k dd n)"
proof (cases "slice_to (extractRunes key) spare k")
  case (Inl e)
  then show ?thesis by (simp add: exact_prefix_search_s_def exact_prefix_search_def)
next
  case (Inr pre)
  from walk_s_walk [OF lay, of pre] show ?thesis
  proof
    assume "walk_s st0 p pre = None \<and> walk (root t) pre = None"
    with Inr show ?thesis by (simp add: exact_prefix_search_s_def exact_prefix_search_def)
  next
    assume "\<exists>a y. walk_s st0 p pre = Some a \<and> walk (root t) pre = Some y \<and> lays_out st0 a y"
    then obtain a y where w: "walk_s st0 p pre = Some a" "walk (root t) pre = Some y"
      and l: "lays_out st0 a y" by blast
    show ?thesis
    proof (cases "slice_from (extractRunes key) k")
      case bad: (Inl e)
      with Inr w show ?thesis by (simp add: exact_prefix_search_s_def exact_prefix_search_def)
    next
      case rest: (Inr rest)
      have d: "deref st0 a = Inr (Node_s a (data y))" by (rule lays_out_deref [OF l])
      have node: "node_rel st0 (Node_s a (data y)) y" using l by (simp add: node_rel_def)
      from walk_nsize [OF w(2)] fuel have "128 + nsize y < fuel" by linarith
      from suggest_s_sim [of st0 fuel proc_s proc, OF proc node this, of rest dd n]
        Inr w rest d show ?thesis
        by (simp add: exact_prefix_search_s_def exact_prefix_search_def)
    qed
  qed
qed

text \<open>
  On a store that lays out a trie, and when the loops are given more rounds than the trie
  has nodes and the search has stacks (at most 128), each of the four searches on the
  store comes to its end and returns what the search on the trie value returns, panics
  included; \<^verbatim>\<open>Get\<close> on the store reads what \<^verbatim>\<open>Get\<close> on the trie value reads; and the store
  that the search leaves lays out the same trie.
\<close>

theorem store_searches_agree:
  assumes "lays_out st p (root t)" and "128 + nsize (root t) < fuel"
  shows "snd (Suggest_s fuel st p key dd n) = Some (Suggest t key dd n)
       \<and> snd (SuggestSuffixes_s fuel st p key dd n) = Some (SuggestSuffixes t key dd n)
       \<and> snd (SuggestAfterExactPrefix_s fuel spare st p key k dd n)
           = Some (SuggestAfterExactPrefix spare t key k dd n)
       \<and> snd (SuggestSuffixesAfterExactPrefix_s fuel spare st p key k dd n)
           = Some (SuggestSuffixesAfterExactPrefix spare t key k dd n)
       \<and> Get_s st p key = Trie_Get t key
       \<and> lays_out (fst (Suggest_s fuel st p key dd n)) p (root t)
       \<and> lays_out (fst (SuggestSuffixes_s fuel st p key dd n)) p (root t)
       \<and> lays_out (fst (SuggestAfterExactPrefix_s fuel spare st p key k dd n)) p (root t)
       \<and> lays_out (fst (SuggestSuffixesAfterExactPrefix_s fuel spare st p key k dd n)) p (root t)"
proof -
  note still = searches_grown [THEN grown_lays_out, OF assms(1)]
  have plain: "doNotExpandSuffixes_s st' xs l = Some (Inr (doNotExpandSuffixes x l))"
    if "grown st st'" "node_rel st xs x" "nsize x < fuel" for st' xs x l
    by (rule doNotExpandSuffixes_s_sim [OF that(2)])
  have expand: "expandSuffixes_s fuel st' xs l = Some (Inr (expandSuffixes x l))"
    if "grown st st'" "node_rel st xs x" "nsize x < fuel" for st' xs x l
    by (rule expandSuffixes_s_sim [OF that])
  have d: "deref st p = Inr (Node_s p (data (root t)))" by (rule lays_out_deref [OF assms(1)])
  have node: "node_rel st (Node_s p (data (root t))) (root t)"
    using assms(1) by (simp add: node_rel_def)
  have "snd (Suggest_s fuel st p key dd n) = Some (Suggest t key dd n)"
    using suggest_s_sim [of st fuel doNotExpandSuffixes_s doNotExpandSuffixes, OF plain node assms(2)]
    by (simp add: Suggest_s_def Suggest_def d)
  moreover have "snd (SuggestSuffixes_s fuel st p key dd n) = Some (SuggestSuffixes t key dd n)"
    using suggest_s_sim [of st fuel "expandSuffixes_s fuel" expandSuffixes, OF expand node assms(2)]
    by (simp add: SuggestSuffixes_s_def SuggestSuffixes_def d)
  moreover have "snd (SuggestAfterExactPrefix_s fuel spare st p key k dd n)
           = Some (SuggestAfterExactPrefix spare t key k dd n)"
    unfolding SuggestAfterExactPrefix_s_def SuggestAfterExactPrefix_def
    by (rule exact_prefix_search_s_sim [OF plain assms])
  moreover have "snd (SuggestSuffixesAfterExactPrefix_s fuel spare st p key k dd n)
           = Some (SuggestSuffixesAfterExactPrefix spare t key k dd n)"
    unfolding SuggestSuffixesAfterExactPrefix_s_def SuggestSuffixesAfterExactPrefix_def
    by (rule exact_prefix_search_s_sim [OF expand assms])
  moreover have "Get_s st p key = Trie_Get t key" by (rule Get_s_Trie_Get [OF assms(1)])
  ultimately show ?thesis by (simp add: still)
qed
theorem store_searches_agree_witness:
  "lays_out [NodeCell [(97, 1)] None, NodeCell [(98, 2), (99, 3)] (Some (KV ''a'' ''1'')),
             NodeCell [] (Some (KV ''ab'' ''2'')), NodeCell [] (Some (KV ''ac'' ''3''))] 0
     (root (Trie_Set (Trie_Set (Trie_Set New ''a'' ''1'') ''ab'' ''2'') ''ac'' ''3''))
   \<and> 128 + nsize (root (Trie_Set (Trie_Set (Trie_Set New ''a'' ''1'') ''ab'' ''2'') ''ac'' ''3'')) < 200
   \<and> snd (SuggestSuffixes_s 200
        [NodeCell [(97, 1)] None, NodeCell [(98, 2), (99, 3)] (Some (KV ''a'' ''1'')),
         NodeCell [] (Some (KV ''ab'' ''2'')), NodeCell [] (Some (KV ''ac'' ''3''))] 0 ''a'' 0 10)
     = Some (Inr [KV ''a'' ''1'', KV ''ac'' ''3'', KV ''ab'' ''2''])
   \<and> SuggestSuffixes (Trie_Set (Trie_Set (Trie_Set New ''a'' ''1'') ''ab'' ''2'') ''ac'' ''3'')
        ''a'' 0 10
     = Inr [KV ''a'' ''1'', KV ''ac'' ''3'', KV ''ab'' ''2'']"
proof -
  define S where "S = [NodeCell [(97, 1)] None, NodeCell [(98, 2), (99, 3)] (Some (KV ''a'' ''1'')),
      NodeCell [] (Some (KV ''ab'' ''2'')), NodeCell [] (Some (KV ''ac'' ''3''))]"
  define t where "t = Trie_Set (Trie_Set (Trie_Set New ''a'' ''1'') ''ab'' ''2'') ''ac'' ''3''"
  have root: "root t = Node [(97, Node [(98, Node [] (Some (KV ''ab'' ''2''))),
                                        (99, Node [] (Some (KV ''ac'' ''3'')))]
                                  (Some (KV ''a'' ''1'')))] None"
    unfolding t_def by code_simp
  have l2: "lays_out S 2 (Node [] (Some (KV ''ab'' ''2'')))"
    by (rule lays_out.intros [where c = "NodeCell [] (Some (KV ''ab'' ''2''))"])
       (simp_all add: S_def node_at_def)
  have l3: "lays_out S 3 (Node [] (Some (KV ''ac'' ''3'')))"
    by (rule lays_out.intros [where c = "NodeCell [] (Some (KV ''ac'' ''3''))"])
       (simp_all add: S_def node_at_def)
  have l1: "lays_out S 1 (Node [(98, Node [] (Some (KV ''ab'' ''2''))),
                                (99, Node [] (Some (KV ''ac'' ''3'')))] (Some (KV ''a'' ''1'')))"
    by (rule lays_out.intros [where c = "NodeCell [(98, 2), (99, 3)] (Some (KV ''a'' ''1''))"])
       (use l2 l3 in \<open>simp_all add: S_def node_at_def less_Suc_eq nth_Cons split: nat.splits\<close>)
  have l0: "lays_out S 0 (root t)"
    unfolding root
    by (rule lays_out.intros [where c = "NodeCell [(97, 1)] None"])
       (use l1 in \<open>simp_all add: S_def node_at_def\<close>)
  have size: "128 + nsize (root t) < 200" unfolding root by simp
  have run: "SuggestSuffixes t ''a'' 0 10 = Inr [KV ''a'' ''1'', KV ''ac'' ''3'', KV ''ab'' ''2'']"
    unfolding t_def by code_simp
  from store_searches_agree [OF l0 size, of "''a''" 0 10] l0 size run
  show ?thesis by (simp add: S_def t_def)
qed

end
